theory Spec2Isabelle
  imports Main "HOL-Library.Char_ord" "HOL-Library.List_Lexorder"
begin

section \<open>Values, events and errors\<close>

text \<open>
  The hub is written in TypeScript. Payloads and thrown values are arbitrary JavaScript
  values; the model keeps the two values the code tests for (\<open>null\<close> and
  \<open>undefined\<close>) apart from all the others.
\<close>

datatype jsval = JUndefined | JNull | JNum int | JStr string

text \<open>\<open>HubEvent\<close>: \<open>{ key, data, timestamp }\<close>; the timestamp is a reading of \<open>Date.now()\<close>.\<close>

record hubEvent =
  key :: string
  data :: jsval
  timestamp :: nat

text \<open>The \<open>Error\<close>s the hub throws, one constructor per message.\<close>

datatype error =
    KeyEmpty              \<comment> \<open>\<open>Key cannot be empty\<close>\<close>
  | DataNull              \<comment> \<open>\<open>Data cannot be null or undefined\<close>\<close>
  | CallbackNotFunction   \<comment> \<open>\<open>Callback must be a function\<close>\<close>
  | KeysEmpty             \<comment> \<open>\<open>Keys array cannot be empty\<close>\<close>
  | KeysContainEmpty      \<comment> \<open>\<open>All keys must be non-empty\<close>\<close>
  | WildcardInToSignal    \<comment> \<open>\<open>toSignal does not support wildcards\<close>\<close>

section \<open>The key matchers\<close>

subsection \<open>String primitives of JavaScript\<close>

text \<open>\<open>s.split(c)\<close> for a one-character separator: never empty, \<open>''''.split(c) = ['''']\<close>.\<close>

fun str_split :: "char \<Rightarrow> string \<Rightarrow> string list" where
  "str_split c [] = [[]]"
| "str_split c (x # xs) =
     (if x = c then [] # str_split c xs
      else (case str_split c xs of
              [] \<Rightarrow> [[x]]
            | p # ps \<Rightarrow> (x # p) # ps))"

text \<open>Array destructuring \<open>[a, b] = parts\<close>: a position past the end reads \<open>undefined\<close>.\<close>

fun nth_opt :: "'a list \<Rightarrow> nat \<Rightarrow> 'a option" where
  "nth_opt [] n = None"
| "nth_opt (x # xs) 0 = Some x"
| "nth_opt (x # xs) (Suc n) = nth_opt xs n"

definition str_includes :: "string \<Rightarrow> char \<Rightarrow> bool" where
  "str_includes s c = (c \<in> set s)"

subsection \<open>Queued variant (\<open>signal-bus.service.ts\<close>): split on the delimiter\<close>

definition matchQuery_Q :: "string \<Rightarrow> string \<Rightarrow> bool" where
  "matchQuery_Q k query =
     (if k = query then True
      else if query = ''*'' then True
      else if str_includes k (CHR '':'') \<and> str_includes query (CHR '':'') then
        (let keyPart1 = nth_opt (str_split (CHR '':'') k) 0;
             queryPart1 = nth_opt (str_split (CHR '':'') query) 0;
             queryPart2 = nth_opt (str_split (CHR '':'') query) 1
         in if keyPart1 = queryPart1 \<and> queryPart2 = Some ''*'' then True else False)
      else False)"

subsection \<open>Synchronous variant (\<open>signal-hub.service.ts\<close>): compiled wildcard pattern\<close>

text \<open>
  \<open>buildWildcardRegex\<close> escapes every regular-expression metacharacter of the query
  except \<open>*\<close>, replaces each \<open>*\<close> by \<open>[^:]+\<close> and anchors the result. The compiled
  pattern is therefore a sequence of literal characters and of "one or more characters
  other than the delimiter"; \<open>regex_test\<close> is \<open>RegExp.prototype.test\<close> on that
  sequence (the whole key has to match, since the pattern is anchored at both ends).
\<close>

datatype token = Lit char | NonColons

definition buildWildcardRegex :: "string \<Rightarrow> token list" where
  "buildWildcardRegex query = map (\<lambda>c. if c = CHR ''*'' then NonColons else Lit c) query"

fun regex_test :: "token list \<Rightarrow> string \<Rightarrow> bool" where
  "regex_test [] s = (s = [])"
| "regex_test (Lit c # ts) [] = False"
| "regex_test (Lit c # ts) (x # xs) = (c = x \<and> regex_test ts xs)"
| "regex_test (NonColons # ts) [] = False"
| "regex_test (NonColons # ts) (x # xs) =
     (x \<noteq> CHR '':'' \<and> (regex_test ts xs \<or> regex_test (NonColons # ts) xs))"

definition matchQuery_S :: "string \<Rightarrow> string \<Rightarrow> bool" where
  "matchQuery_S k query =
     (if query = ''*'' \<or> k = query then True
      else if \<not> str_includes query (CHR ''*'') then False
      else regex_test (buildWildcardRegex query) k)"

section \<open>JavaScript \<open>Map\<close>: insertion-ordered, one entry per key\<close>

text \<open>
  \<open>Map.prototype.forEach\<close> and \<open>entries()\<close> visit the entries in insertion order, and
  \<open>set\<close> on a key that is present keeps the key's position. An association list with
  these three operations is that behaviour.
\<close>

fun jsmap_get :: "('k \<times> 'v) list \<Rightarrow> 'k \<Rightarrow> 'v option" where
  "jsmap_get [] k = None"
| "jsmap_get ((k', v) # m) k = (if k' = k then Some v else jsmap_get m k)"

fun jsmap_set :: "'k \<Rightarrow> 'v \<Rightarrow> ('k \<times> 'v) list \<Rightarrow> ('k \<times> 'v) list" where
  "jsmap_set k v [] = [(k, v)]"
| "jsmap_set k v ((k', v') # m) =
     (if k' = k then (k, v) # m else (k', v') # jsmap_set k v m)"

definition jsmap_delete :: "'k \<Rightarrow> ('k \<times> 'v) list \<Rightarrow> ('k \<times> 'v) list" where
  "jsmap_delete k m = filter (\<lambda>p. fst p \<noteq> k) m"

section \<open>Callbacks, outcomes and the diagnostic log\<close>

text \<open>
  A function supplied by a caller is opaque to the hub. The model names it by its
  reference (a number: two subscriptions of the same function carry the same number)
  and takes its behaviour as a parameter \<open>beh\<close>: called on an event it returns
  normally (or returns a promise that fulfils), throws, or returns a promise that
  rejects. Supplied functions are assumed not to call back into the hub, and error
  handlers and \<open>console.warn\<close> are assumed to return normally. Every call of a supplied
  function, of an error handler and of \<open>console.warn\<close> is recorded in a log.
\<close>

datatype outcome = Returns | Throws jsval | Rejects jsval

datatype log_entry =
    Invoked nat hubEvent               \<comment> \<open>the supplied callback was called with the event\<close>
  | InvokedMany nat "hubEvent list"    \<comment> \<open>a combine-latest callback was called\<close>
  | Handled nat jsval hubEvent         \<comment> \<open>\<open>onError(error, event)\<close>\<close>
  | HandledMany nat jsval "hubEvent list"
  | Warned string jsval                \<comment> \<open>\<open>console.warn\<close> naming the query\<close>

section \<open>The queued hub (\<open>projects/ngx-signal-hub/src/lib/signal-bus.service.ts\<close>)\<close>

text \<open>
  The functions stored in the subscriber registry are either supplied by the caller or
  closures created by \<open>once\<close> and \<open>onceAsync\<close>. A closure is named by the number of
  its variable record (\<open>hasRun\<close>, \<open>subscription\<close>), which is allocated fresh, so
  equality of these values is reference equality of the functions.
\<close>

datatype callback_Q =
    UserFn nat            \<comment> \<open>a supplied function\<close>
  | OnceFn nat nat        \<comment> \<open>the arrow function of \<open>once\<close>: variables, wrapped function\<close>
  | OnceAsyncFn nat nat   \<comment> \<open>the async arrow function of \<open>onceAsync\<close>\<close>

record subscriber_Q =
  callback :: callback_Q
  onError :: "nat option"

text \<open>
  \<open>HubSubscription\<close> as returned by \<open>internalSubscribe\<close>: the closure captures
  \<open>manualUnsubscribe\<close>, \<open>query\<close> and \<open>safeCallback\<close>.
\<close>

datatype handle_Q = Handle_Q bool string callback_Q

record onceVars_Q =
  hasRun :: bool
  subscription :: "handle_Q option"

text \<open>
  Microtasks. \<open>CallJob\<close> is the reaction \<open>.then(() => callback(event))\<close> together with
  the \<open>.catch\<close> attached to it; \<open>CatchJob\<close> is that \<open>.catch\<close> handler once the promise
  has rejected; \<open>ResumeOnceAsync\<close> is the rest of the \<open>onceAsync\<close> arrow function after
  its \<open>await\<close>.
\<close>

datatype job_Q =
    CallJob subscriber_Q string hubEvent
  | CatchJob "nat option" string jsval hubEvent
  | ResumeOnceAsync nat

record hub_Q =
  eventQueue :: "hubEvent list"
  eventRegistry :: "(string \<times> hubEvent) list"
  subscribers :: "(string \<times> subscriber_Q list) list"
  onceVars :: "nat \<Rightarrow> onceVars_Q"
  destroyHooks :: "(nat \<times> string \<times> callback_Q) list"
  log :: "log_entry list"
  nextClosure :: nat

definition new_hub_Q :: hub_Q where
  "new_hub_Q = \<lparr> eventQueue = [], eventRegistry = [], subscribers = [],
                 onceVars = (\<lambda>_. \<lparr> hasRun = False, subscription = None \<rparr>),
                 destroyHooks = [], log = [], nextClosure = 0 \<rparr>"

definition publish_Q :: "string \<Rightarrow> jsval \<Rightarrow> nat \<Rightarrow> hub_Q \<Rightarrow> (error + unit) \<times> hub_Q" where
  "publish_Q k d now s =
     (if k = [] then (Inl KeyEmpty, s)
      else if d = JNull \<or> d = JUndefined then (Inl DataNull, s)
      else (Inr (), s\<lparr> eventQueue := eventQueue s @ [\<lparr> key = k, data = d, timestamp = now \<rparr>] \<rparr>))"

definition publishNoData_Q :: "string \<Rightarrow> nat \<Rightarrow> hub_Q \<Rightarrow> (error + unit) \<times> hub_Q" where
  "publishNoData_Q k now s =
     (if k = [] then (Inl KeyEmpty, s)
      else (Inr (), s\<lparr> eventQueue := eventQueue s @ [\<lparr> key = k, data = JUndefined, timestamp = now \<rparr>] \<rparr>))"

definition unsubscribe_Q :: "string \<Rightarrow> callback_Q \<Rightarrow> hub_Q \<Rightarrow> hub_Q" where
  "unsubscribe_Q query cb s =
     (case jsmap_get (subscribers s) query of
        None \<Rightarrow> s
      | Some callbacks \<Rightarrow>
          (let updatedCallbacks = filter (\<lambda>sub. callback sub \<noteq> cb) callbacks
           in if updatedCallbacks \<noteq> []
              then s\<lparr> subscribers := jsmap_set query updatedCallbacks (subscribers s) \<rparr>
              else s\<lparr> subscribers := jsmap_delete query (subscribers s) \<rparr>))"

text \<open>\<open>handle.unsubscribe()\<close>.\<close>

fun handle_unsubscribe_Q :: "handle_Q \<Rightarrow> hub_Q \<Rightarrow> hub_Q" where
  "handle_unsubscribe_Q (Handle_Q manualUnsubscribe query cb) s =
     (if manualUnsubscribe then unsubscribe_Q query cb s else s)"

text \<open>
  Modelled from the spec: the resource-lifetime collaborator (\<open>DestroyRef\<close> of the host
  framework) "runs this callback exactly once when the resource is torn down". The
  hooks registered with \<open>onDestroy\<close> are kept with the number of their \<open>DestroyRef\<close>;
  \<open>triggerDestroy_Q\<close> is the teardown of one resource.
\<close>

definition internalSubscribe_Q ::
  "string \<Rightarrow> callback_Q \<Rightarrow> nat option \<Rightarrow> nat option \<Rightarrow> hub_Q \<Rightarrow> handle_Q \<times> hub_Q" where
  "internalSubscribe_Q query cb destroyRef onErr s =
     (let callbacks = (case jsmap_get (subscribers s) query of None \<Rightarrow> [] | Some cs \<Rightarrow> cs);
          s1 = s\<lparr> subscribers :=
                    jsmap_set query (callbacks @ [\<lparr> callback = cb, onError = onErr \<rparr>]) (subscribers s) \<rparr>
      in case destroyRef of
           None \<Rightarrow> (Handle_Q True query cb, s1)
         | Some r \<Rightarrow> (Handle_Q False query cb,
                      s1\<lparr> destroyHooks := destroyHooks s1 @ [(r, query, cb)] \<rparr>))"

fun run_hooks_Q :: "(nat \<times> string \<times> callback_Q) list \<Rightarrow> nat \<Rightarrow> hub_Q \<Rightarrow> hub_Q" where
  "run_hooks_Q [] r s = s"
| "run_hooks_Q ((r', query, cb) # hs) r s =
     (if r' = r then run_hooks_Q hs r (unsubscribe_Q query cb s) else run_hooks_Q hs r s)"

definition triggerDestroy_Q :: "nat \<Rightarrow> hub_Q \<Rightarrow> hub_Q" where
  "triggerDestroy_Q r s =
     (let s1 = run_hooks_Q (destroyHooks s) r s
      in s1\<lparr> destroyHooks := filter (\<lambda>h. fst h \<noteq> r) (destroyHooks s1) \<rparr>)"

text \<open>
  Calling a stored function up to its first suspension: the outcome, the microtasks it
  leaves behind, and the new state.
\<close>

fun invoke_Q ::
  "(nat \<Rightarrow> hubEvent \<Rightarrow> outcome) \<Rightarrow> callback_Q \<Rightarrow> hubEvent \<Rightarrow> hub_Q \<Rightarrow> outcome \<times> job_Q list \<times> hub_Q" where
  "invoke_Q beh (UserFn f) ev s = (beh f ev, [], s\<lparr> log := log s @ [Invoked f ev] \<rparr>)"
| "invoke_Q beh (OnceFn c f) ev s =
     (if hasRun (onceVars s c) then (Returns, [], s)
      else
        (let s1 = s\<lparr> onceVars := (onceVars s)(c := (onceVars s c)\<lparr> hasRun := True \<rparr>) \<rparr>;
             s2 = (case subscription (onceVars s1 c) of
                     None \<Rightarrow> s1
                   | Some h \<Rightarrow> handle_unsubscribe_Q h s1);
             s3 = s2\<lparr> log := log s2 @ [Invoked f ev] \<rparr>
         in case beh f ev of
              Throws e \<Rightarrow> (Throws e, [], s3)
            | _ \<Rightarrow> (Returns, [], s3)))"
| "invoke_Q beh (OnceAsyncFn c f) ev s =
     (let s1 = s\<lparr> log := log s @ [Invoked f ev] \<rparr>
      in case beh f ev of
           Returns \<Rightarrow> (Returns, [ResumeOnceAsync c], s1)
         | Throws e \<Rightarrow> (Rejects e, [], s1)
         | Rejects e \<Rightarrow> (Rejects e, [], s1))"

fun run_job_Q :: "(nat \<Rightarrow> hubEvent \<Rightarrow> outcome) \<Rightarrow> job_Q \<Rightarrow> hub_Q \<Rightarrow> job_Q list \<times> hub_Q" where
  "run_job_Q beh (CallJob sub query ev) s =
     (case invoke_Q beh (callback sub) ev s of
        (Returns, spawned, s1) \<Rightarrow> (spawned, s1)
      | (Throws e, spawned, s1) \<Rightarrow> (spawned @ [CatchJob (onError sub) query e ev], s1)
      | (Rejects e, spawned, s1) \<Rightarrow> (spawned @ [CatchJob (onError sub) query e ev], s1))"
| "run_job_Q beh (CatchJob h query e ev) s =
     ([], (case h of
             Some hid \<Rightarrow> s\<lparr> log := log s @ [Handled hid e ev] \<rparr>
           | None \<Rightarrow> s\<lparr> log := log s @ [Warned query e] \<rparr>))"
| "run_job_Q beh (ResumeOnceAsync c) s =
     ([], (case subscription (onceVars s c) of
             None \<Rightarrow> s
           | Some h \<Rightarrow> handle_unsubscribe_Q h s))"

fun job_weight :: "job_Q \<Rightarrow> nat" where
  "job_weight (CallJob sub query ev) = 2"
| "job_weight (CatchJob h query e ev) = 1"
| "job_weight (ResumeOnceAsync c) = 1"

lemma invoke_Q_spawned:
  "invoke_Q beh cb ev s = (out, spawned, s') \<Longrightarrow>
     spawned = [] \<or> (out = Returns \<and> (\<exists>c. spawned = [ResumeOnceAsync c]))"
  by (cases cb) (auto simp: Let_def split: if_splits outcome.splits)

lemma run_job_Q_weight:
  assumes r: "run_job_Q beh j s = (new, s')"
  shows "sum_list (map job_weight new) < job_weight j"
proof (cases j)
  case (CallJob sub query ev)
  obtain out spawned s1 where i: "invoke_Q beh (callback sub) ev s = (out, spawned, s1)"
    by (cases "invoke_Q beh (callback sub) ev s") auto
  from invoke_Q_spawned [OF i] r i CallJob show ?thesis
    by (cases out) auto
next
  case (CatchJob h query e ev)
  with r show ?thesis by auto
next
  case (ResumeOnceAsync c)
  with r show ?thesis by auto
qed

text \<open>The microtask queue runs until it is empty, first in, first out.\<close>

function run_jobs_Q :: "(nat \<Rightarrow> hubEvent \<Rightarrow> outcome) \<Rightarrow> job_Q list \<Rightarrow> hub_Q \<Rightarrow> hub_Q" where
  "run_jobs_Q beh [] s = s"
| "run_jobs_Q beh (j # js) s =
     (case run_job_Q beh j s of (new, s') \<Rightarrow> run_jobs_Q beh (js @ new) s')"
  by pat_completeness auto
termination
  apply (relation "measure (\<lambda>(beh, js, s). sum_list (map job_weight js))")
   apply simp
  apply (auto dest!: run_job_Q_weight [OF sym])
  done

text \<open>
  \<open>notifySubscribers\<close> runs synchronously up to its \<open>await\<close>: for every pattern that
  matches and every entry under it, one reaction is queued.
\<close>

definition notifySubscribers_Q :: "hubEvent \<Rightarrow> hub_Q \<Rightarrow> job_Q list" where
  "notifySubscribers_Q ev s =
     concat (map (\<lambda>(query, subs).
                    if matchQuery_Q (key ev) query
                    then map (\<lambda>sub. CallJob sub query ev) subs
                    else [])
                 (subscribers s))"

text \<open>The loop \<open>for (const event of queuedEvents)\<close> of the constructor's effect.\<close>

fun drain_loop_Q ::
  "hubEvent list \<Rightarrow> (string \<times> hubEvent) list \<Rightarrow> hub_Q \<Rightarrow> (string \<times> hubEvent) list \<times> job_Q list" where
  "drain_loop_Q [] updatedRegistry s = (updatedRegistry, [])"
| "drain_loop_Q (ev # evs) updatedRegistry s =
     (case drain_loop_Q evs (jsmap_set (key ev) ev updatedRegistry) s of
        (reg, jobs) \<Rightarrow> (reg, notifySubscribers_Q ev s @ jobs))"

text \<open>The constructor's effect, run by the host's scheduler after the queue has changed.\<close>

definition effect_Q :: "hub_Q \<Rightarrow> job_Q list \<times> hub_Q" where
  "effect_Q s =
     (if eventQueue s = [] then ([], s)
      else (case drain_loop_Q (eventQueue s) (eventRegistry s) s of
              (reg, jobs) \<Rightarrow> (jobs, s\<lparr> eventRegistry := reg, eventQueue := [] \<rparr>)))"

text \<open>One scheduling settle: the effect runs, then every microtask it queued.\<close>

definition settle_Q :: "(nat \<Rightarrow> hubEvent \<Rightarrow> outcome) \<Rightarrow> hub_Q \<Rightarrow> hub_Q" where
  "settle_Q beh s = (case effect_Q s of (jobs, s1) \<Rightarrow> run_jobs_Q beh jobs s1)"

text \<open>The options object of \<open>subscribe\<close>; \<open>opt_callback = None\<close> is a value that is not a function.\<close>

record options_Q =
  opt_key :: string
  opt_callback :: "callback_Q option"
  opt_destroyRef :: "nat option"
  opt_replayLatest :: bool
  opt_onError :: "nat option"

definition subscribe_Q ::
  "(nat \<Rightarrow> hubEvent \<Rightarrow> outcome) \<Rightarrow> options_Q \<Rightarrow> hub_Q \<Rightarrow> (error + handle_Q) \<times> hub_Q" where
  "subscribe_Q beh opts s =
     (if opt_key opts = [] then (Inl KeyEmpty, s)
      else case opt_callback opts of
        None \<Rightarrow> (Inl CallbackNotFunction, s)
      | Some cb \<Rightarrow>
          (let s1 =
                 (if opt_replayLatest opts then
                    (case jsmap_get (eventRegistry s) (opt_key opts) of
                       None \<Rightarrow> s
                     | Some latestEvent \<Rightarrow>
                         (case invoke_Q beh cb latestEvent s of
                            (Throws e, spawned, s') \<Rightarrow>
                              (case opt_onError opts of
                                 Some h \<Rightarrow> s'\<lparr> log := log s' @ [Handled h e latestEvent] \<rparr>
                               | None \<Rightarrow> s'\<lparr> log := log s' @ [Warned (opt_key opts) e] \<rparr>)
                          | (_, spawned, s') \<Rightarrow> run_jobs_Q beh spawned s'))
                  else s)
           in case internalSubscribe_Q (opt_key opts) cb (opt_destroyRef opts) (opt_onError opts) s1 of
                (h, s2) \<Rightarrow> (Inr h, s2)))"

text \<open>
  \<open>subscribeAsync\<close>, seen from a caller that awaits it: the replay awaits the callback,
  so a rejection is caught as well.
\<close>

definition subscribeAsync_Q ::
  "(nat \<Rightarrow> hubEvent \<Rightarrow> outcome) \<Rightarrow> options_Q \<Rightarrow> hub_Q \<Rightarrow> (error + handle_Q) \<times> hub_Q" where
  "subscribeAsync_Q beh opts s =
     (if opt_key opts = [] then (Inl KeyEmpty, s)
      else case opt_callback opts of
        None \<Rightarrow> (Inl CallbackNotFunction, s)
      | Some cb \<Rightarrow>
          (let s1 =
                 (if opt_replayLatest opts then
                    (case jsmap_get (eventRegistry s) (opt_key opts) of
                       None \<Rightarrow> s
                     | Some latestEvent \<Rightarrow>
                         (case invoke_Q beh cb latestEvent s of
                            (Returns, spawned, s') \<Rightarrow> run_jobs_Q beh spawned s'
                          | (Throws e, spawned, s') \<Rightarrow>
                              (case opt_onError opts of
                                 Some h \<Rightarrow> s'\<lparr> log := log s' @ [Handled h e latestEvent] \<rparr>
                               | None \<Rightarrow> s'\<lparr> log := log s' @ [Warned (opt_key opts) e] \<rparr>)
                          | (Rejects e, spawned, s') \<Rightarrow>
                              (case opt_onError opts of
                                 Some h \<Rightarrow> s'\<lparr> log := log s' @ [Handled h e latestEvent] \<rparr>
                               | None \<Rightarrow> s'\<lparr> log := log s' @ [Warned (opt_key opts) e] \<rparr>)))
                  else s)
           in case internalSubscribe_Q (opt_key opts) cb (opt_destroyRef opts) (opt_onError opts) s1 of
                (h, s2) \<Rightarrow> (Inr h, s2)))"

text \<open>
  \<open>once\<close> and \<open>onceAsync\<close> take \<open>key\<close>, \<open>callback\<close>, \<open>replayLatest\<close> and \<open>onError\<close> from
  their options (no \<open>destroyRef\<close>), allocate their variables and subscribe the arrow
  function; the variable \<open>subscription\<close> is assigned when the subscription returns.
\<close>

definition once_Q ::
  "(nat \<Rightarrow> hubEvent \<Rightarrow> outcome) \<Rightarrow> string \<Rightarrow> nat \<Rightarrow> bool \<Rightarrow> nat option \<Rightarrow> hub_Q \<Rightarrow> (error + handle_Q) \<times> hub_Q" where
  "once_Q beh k f replayLatest onErr s =
     (let c = nextClosure s;
          s0 = s\<lparr> nextClosure := Suc c,
                  onceVars := (onceVars s)(c := \<lparr> hasRun = False, subscription = None \<rparr>) \<rparr>
      in case subscribe_Q beh \<lparr> opt_key = k, opt_callback = Some (OnceFn c f), opt_destroyRef = None,
                               opt_replayLatest = replayLatest, opt_onError = onErr \<rparr> s0 of
           (Inl e, s1) \<Rightarrow> (Inl e, s1)
         | (Inr h, s1) \<Rightarrow>
             (Inr h, s1\<lparr> onceVars := (onceVars s1)(c := (onceVars s1 c)\<lparr> subscription := Some h \<rparr>) \<rparr>))"

definition onceAsync_Q ::
  "(nat \<Rightarrow> hubEvent \<Rightarrow> outcome) \<Rightarrow> string \<Rightarrow> nat \<Rightarrow> bool \<Rightarrow> nat option \<Rightarrow> hub_Q \<Rightarrow> (error + handle_Q) \<times> hub_Q" where
  "onceAsync_Q beh k f replayLatest onErr s =
     (let c = nextClosure s;
          s0 = s\<lparr> nextClosure := Suc c,
                  onceVars := (onceVars s)(c := \<lparr> hasRun = False, subscription = None \<rparr>) \<rparr>
      in case subscribeAsync_Q beh \<lparr> opt_key = k, opt_callback = Some (OnceAsyncFn c f), opt_destroyRef = None,
                                    opt_replayLatest = replayLatest, opt_onError = onErr \<rparr> s0 of
           (Inl e, s1) \<Rightarrow> (Inl e, s1)
         | (Inr h, s1) \<Rightarrow>
             (Inr h, s1\<lparr> onceVars := (onceVars s1)(c := (onceVars s1 c)\<lparr> subscription := Some h \<rparr>) \<rparr>))"

text \<open>Reading the signal returned by \<open>toSignal(key)\<close>: the stored event or \<open>undefined\<close>.\<close>

definition toSignal_Q :: "string \<Rightarrow> hub_Q \<Rightarrow> error + hubEvent option" where
  "toSignal_Q k s = (if k = [] then Inl KeyEmpty else Inr (jsmap_get (eventRegistry s) k))"

definition toSignalMultiple_Q :: "string list \<Rightarrow> hub_Q \<Rightarrow> error + hubEvent list" where
  "toSignalMultiple_Q keys s =
     (if keys = [] then Inl KeysEmpty
      else if [] \<in> set keys then Inl KeysContainEmpty
      else Inr (List.map_filter (jsmap_get (eventRegistry s)) keys))"

definition clearEvent_Q :: "string \<Rightarrow> hub_Q \<Rightarrow> (error + unit) \<times> hub_Q" where
  "clearEvent_Q k s =
     (if k = [] then (Inl KeyEmpty, s)
      else (Inr (), s\<lparr> eventRegistry := jsmap_delete k (eventRegistry s) \<rparr>))"

definition reset_Q :: "bool \<Rightarrow> hub_Q \<Rightarrow> hub_Q" where
  "reset_Q clearSubscribers s =
     (let s1 = s\<lparr> eventRegistry := [] \<rparr>
      in if clearSubscribers then s1\<lparr> subscribers := [] \<rparr> else s1)"

text \<open>\<open>unsubscribeAll(key?)\<close>: a missing key and the empty string both clear every pattern.\<close>

definition unsubscribeAll_Q :: "string option \<Rightarrow> hub_Q \<Rightarrow> hub_Q" where
  "unsubscribeAll_Q k s =
     (case k of
        None \<Rightarrow> s\<lparr> subscribers := [] \<rparr>
      | Some q \<Rightarrow> if q \<noteq> [] then s\<lparr> subscribers := jsmap_delete q (subscribers s) \<rparr>
                  else s\<lparr> subscribers := [] \<rparr>)"

section \<open>The synchronous hub (\<open>signal-hub.service.ts\<close>)\<close>

subsection \<open>Sorting\<close>

text \<open>
  \<open>Array.prototype.sort\<close> with a comparator is a stable sort; for a comparator that is
  a total preorder its result is determined, and a stable insertion sort computes it.
  \<open>String.prototype.localeCompare\<close> is the platform's collation and is a parameter.
\<close>

fun insert_by :: "('a \<Rightarrow> 'a \<Rightarrow> int) \<Rightarrow> 'a \<Rightarrow> 'a list \<Rightarrow> 'a list" where
  "insert_by cmp x [] = [x]"
| "insert_by cmp x (y # ys) = (if cmp x y \<le> 0 then x # y # ys else y # insert_by cmp x ys)"

definition js_sort :: "('a \<Rightarrow> 'a \<Rightarrow> int) \<Rightarrow> 'a list \<Rightarrow> 'a list" where
  "js_sort cmp xs = foldr (insert_by cmp) xs []"

datatype sortBy = ByTimestamp | ByKey

definition by_timestamp :: "hubEvent \<Rightarrow> hubEvent \<Rightarrow> int" where
  "by_timestamp a b = int (timestamp b) - int (timestamp a)"

definition by_key :: "(string \<Rightarrow> string \<Rightarrow> int) \<Rightarrow> hubEvent \<Rightarrow> hubEvent \<Rightarrow> int" where
  "by_key localeCompare a b = localeCompare (key a) (key b)"

definition sort_events ::
  "(string \<Rightarrow> string \<Rightarrow> int) \<Rightarrow> sortBy option \<Rightarrow> hubEvent list \<Rightarrow> hubEvent list" where
  "sort_events localeCompare sortBy events =
     (case sortBy of
        Some ByTimestamp \<Rightarrow> js_sort by_timestamp events
      | Some ByKey \<Rightarrow> js_sort (by_key localeCompare) events
      | None \<Rightarrow> events)"

subsection \<open>Reading the latest-event registry\<close>

definition toSignal_S :: "string \<Rightarrow> (string \<times> hubEvent) list \<Rightarrow> error + hubEvent option" where
  "toSignal_S k registry =
     (if k = [] then Inl KeyEmpty
      else if str_includes k (CHR ''*'') then Inl WildcardInToSignal
      else Inr (jsmap_get registry k))"

text \<open>The loop \<open>for (const [eventKey, event] of registry.entries())\<close> of \<open>toSignalMultiple\<close>.\<close>

fun collect_matching ::
  "token list \<Rightarrow> (string \<times> hubEvent) list \<Rightarrow> (string \<times> hubEvent) list \<Rightarrow> (string \<times> hubEvent) list" where
  "collect_matching regex [] matchingEvents = matchingEvents"
| "collect_matching regex ((eventKey, event) # entries) matchingEvents =
     collect_matching regex entries
       (if regex_test regex eventKey then jsmap_set eventKey event matchingEvents else matchingEvents)"

text \<open>The body of the loop \<open>for (const query of keys)\<close>, and the loop.\<close>

definition collect_query ::
  "string \<Rightarrow> (string \<times> hubEvent) list \<Rightarrow> (string \<times> hubEvent) list \<Rightarrow> (string \<times> hubEvent) list" where
  "collect_query query registry matchingEvents =
     (if query = [] then matchingEvents
      else if \<not> str_includes query (CHR ''*'') then
        (case jsmap_get registry query of
           Some event \<Rightarrow> jsmap_set (key event) event matchingEvents
         | None \<Rightarrow> matchingEvents)
      else collect_matching (buildWildcardRegex query) registry matchingEvents)"

fun collect_keys ::
  "string list \<Rightarrow> (string \<times> hubEvent) list \<Rightarrow> (string \<times> hubEvent) list \<Rightarrow> (string \<times> hubEvent) list" where
  "collect_keys [] registry matchingEvents = matchingEvents"
| "collect_keys (query # keys) registry matchingEvents =
     collect_keys keys registry (collect_query query registry matchingEvents)"

text \<open>Reading the signal returned by \<open>toSignalMultiple(keys, { sortBy })\<close>.\<close>

definition toSignalMultiple_S ::
  "(string \<Rightarrow> string \<Rightarrow> int) \<Rightarrow> string list \<Rightarrow> sortBy option \<Rightarrow> (string \<times> hubEvent) list
     \<Rightarrow> error + hubEvent list" where
  "toSignalMultiple_S localeCompare keys sortBy registry =
     (if keys = [] then Inl KeysEmpty
      else Inr (sort_events localeCompare sortBy (map snd (collect_keys keys registry []))))"

text \<open>The loop of \<open>findLatestEventForKey\<close> over the entries that match.\<close>

fun latest_matching :: "token list \<Rightarrow> (string \<times> hubEvent) list \<Rightarrow> hubEvent option \<Rightarrow> hubEvent option" where
  "latest_matching regex [] latestEvent = latestEvent"
| "latest_matching regex ((eventKey, event) # entries) latestEvent =
     latest_matching regex entries
       (if regex_test regex eventKey then
          (case latestEvent of
             None \<Rightarrow> Some event
           | Some l \<Rightarrow> if timestamp event > timestamp l then Some event else Some l)
        else latestEvent)"

definition findLatestEventForKey :: "string \<Rightarrow> (string \<times> hubEvent) list \<Rightarrow> hubEvent option" where
  "findLatestEventForKey k registry =
     (if \<not> str_includes k (CHR ''*'') then jsmap_get registry k
      else latest_matching (buildWildcardRegex k) registry None)"

text \<open>The computed signal \<open>combinedSignal\<close> of \<open>onCombineLatest\<close>.\<close>

definition combinedSignal ::
  "(string \<Rightarrow> string \<Rightarrow> int) \<Rightarrow> string list \<Rightarrow> sortBy option \<Rightarrow> (string \<times> hubEvent) list
     \<Rightarrow> hubEvent list option" where
  "combinedSignal localeCompare keys sortBy registry =
     (let events = List.map_filter (jsmap_get registry) keys
      in if length events = length keys then Some (sort_events localeCompare sortBy events)
         else None)"

subsection \<open>State\<close>

text \<open>
  The subscriber registry maps a pattern to a \<open>Set\<close> of subscriber objects. Each object
  is fresh, so the set is a list in insertion order and an object is named by a number
  \<open>sid\<close> that stands for its identity. The functions stored are supplied functions, the
  closure \<open>unsubscribeAll\<close> of a call of \<open>on\<close>, the wrapper that \<open>internalSubscribe\<close>
  installs when \<open>once = true\<close>, and the closure \<open>onceCallback\<close> of \<open>once\<close>.
\<close>

datatype unsub_S =
    UnsubEntry string nat    \<comment> \<open>the closure \<open>unsubscribe\<close> of \<open>internalSubscribe\<close>: query, subscriber\<close>
  | DestroyEffect nat        \<comment> \<open>\<open>() => effectRef.destroy()\<close>\<close>

datatype handle_S =
    InertHandle              \<comment> \<open>\<open>{ unsubscribe: () => {} }\<close>\<close>
  | OnHandle nat             \<comment> \<open>\<open>{ unsubscribe: unsubscribeAll }\<close> of a call of \<open>on\<close>\<close>
  | EffectHandle nat         \<comment> \<open>the handle of \<open>onCombineLatest\<close>\<close>

datatype callback_S =
    UserFn_S nat
  | UnsubscribeAllFn nat
  | OnceWrapper string nat callback_S
  | OnceCallback nat nat "nat option" string

record subscriber_S =
  sid :: nat
  callback_S :: callback_S
  onError_S :: "nat option"

text \<open>The variables \<open>unsubscribers\<close> and \<open>mainSubscription\<close> of one call of \<open>on\<close>.\<close>

record onVars_S =
  unsubscribers :: "unsub_S list"
  mainSubscription :: "unsub_S option"

text \<open>
  Modelled from the spec: the reactive collaborator (the host framework's \<open>signal\<close>,
  \<open>computed\<close> and \<open>effect\<close>): "a derived cell recomputes when any source it read last
  time has changed; a reaction is a derived cell with a side effect and explicit
  teardown, run on a single-threaded scheduler tick". An effect is pending (\<open>dirty\<close>)
  from its creation and whenever a signal it read in its last run has changed since;
  \<open>flush_S\<close> is the scheduler tick that runs the pending effects.
\<close>

datatype effectBody_S =
    UntilEffect nat nat
      \<comment> \<open>\<open>if (signal()) unsubscribeAll()\<close>: the signal, the call of \<open>on\<close>\<close>
  | CombineEffect "string list" nat bool "nat option" "sortBy option"
      \<comment> \<open>the effect of \<open>onCombineLatest\<close>: keys, callback, replayLatest, onError, sortBy\<close>

record effect_S =
  eid :: nat
  body :: effectBody_S
  dirty :: bool
  readRegistry :: bool   \<comment> \<open>the last run read \<open>eventRegistry\<close> itself\<close>

record hub_S =
  eventRegistry_S :: "(string \<times> hubEvent) list"
  subscribers_S :: "(string \<times> subscriber_S list) list"
  onVars :: "nat \<Rightarrow> onVars_S"
  onceCell :: "nat \<Rightarrow> handle_S option"
  effects :: "effect_S list"
  signals :: "nat \<Rightarrow> bool"
  destroyHooks_S :: "(nat \<times> unsub_S) list"
  log_S :: "log_entry list"
  nextId :: nat

definition new_hub_S :: hub_S where
  "new_hub_S = \<lparr> eventRegistry_S = [], subscribers_S = [],
                 onVars = (\<lambda>_. \<lparr> unsubscribers = [], mainSubscription = None \<rparr>),
                 onceCell = (\<lambda>_. None), effects = [], signals = (\<lambda>_. False),
                 destroyHooks_S = [], log_S = [], nextId = 0 \<rparr>"

subsection \<open>Unsubscribing\<close>

text \<open>The closure \<open>unsubscribe\<close> of \<open>internalSubscribe\<close>.\<close>

definition unsubscribe_S :: "string \<Rightarrow> nat \<Rightarrow> hub_S \<Rightarrow> hub_S" where
  "unsubscribe_S query subscriber s =
     (case jsmap_get (subscribers_S s) query of
        None \<Rightarrow> s
      | Some currentSubscribers \<Rightarrow>
          (let remaining = filter (\<lambda>sub. sid sub \<noteq> subscriber) currentSubscribers
           in if remaining = []
              then s\<lparr> subscribers_S := jsmap_delete query (subscribers_S s) \<rparr>
              else s\<lparr> subscribers_S := jsmap_set query remaining (subscribers_S s) \<rparr>))"

fun run_unsub_S :: "unsub_S \<Rightarrow> hub_S \<Rightarrow> hub_S" where
  "run_unsub_S (UnsubEntry query subscriber) s = unsubscribe_S query subscriber s"
| "run_unsub_S (DestroyEffect e) s = s\<lparr> effects := filter (\<lambda>x. eid x \<noteq> e) (effects s) \<rparr>"

text \<open>The closure \<open>unsubscribeAll\<close> of \<open>on\<close>.\<close>

definition unsubscribeAll_S :: "nat \<Rightarrow> hub_S \<Rightarrow> hub_S" where
  "unsubscribeAll_S g s =
     (let s1 = fold run_unsub_S (unsubscribers (onVars s g)) s
      in case mainSubscription (onVars s1 g) of
           None \<Rightarrow> s1
         | Some u \<Rightarrow> run_unsub_S u s1)"

fun handle_unsubscribe_S :: "handle_S \<Rightarrow> hub_S \<Rightarrow> hub_S" where
  "handle_unsubscribe_S InertHandle s = s"
| "handle_unsubscribe_S (OnHandle g) s = unsubscribeAll_S g s"
| "handle_unsubscribe_S (EffectHandle e) s = run_unsub_S (DestroyEffect e) s"

definition triggerDestroy_S :: "nat \<Rightarrow> hub_S \<Rightarrow> hub_S" where
  "triggerDestroy_S r s =
     (let s1 = fold run_unsub_S (map snd (filter (\<lambda>h. fst h = r) (destroyHooks_S s))) s
      in s1\<lparr> destroyHooks_S := filter (\<lambda>h. fst h \<noteq> r) (destroyHooks_S s1) \<rparr>)"

subsection \<open>Dispatch\<close>

definition handleError :: "jsval \<Rightarrow> hubEvent \<Rightarrow> nat option \<Rightarrow> string \<Rightarrow> hub_S \<Rightarrow> hub_S" where
  "handleError e ev handler query s =
     (case handler of
        Some h \<Rightarrow> s\<lparr> log_S := log_S s @ [Handled h e ev] \<rparr>
      | None \<Rightarrow> s\<lparr> log_S := log_S s @ [Warned query e] \<rparr>)"

text \<open>Calling a stored function: its outcome and the new state.\<close>

fun invoke_S :: "(nat \<Rightarrow> hubEvent \<Rightarrow> outcome) \<Rightarrow> callback_S \<Rightarrow> hubEvent \<Rightarrow> hub_S \<Rightarrow> outcome \<times> hub_S" where
  "invoke_S beh (UserFn_S f) ev s = (beh f ev, s\<lparr> log_S := log_S s @ [Invoked f ev] \<rparr>)"
| "invoke_S beh (UnsubscribeAllFn g) ev s = (Returns, unsubscribeAll_S g s)"
| "invoke_S beh (OnceWrapper query subscriber originalCallback) ev s =
     invoke_S beh originalCallback ev (unsubscribe_S query subscriber s)"
| "invoke_S beh (OnceCallback c f onErr k) ev s =
     (let s1 = (case onceCell s c of None \<Rightarrow> s | Some h \<Rightarrow> handle_unsubscribe_S h s);
          s2 = s1\<lparr> log_S := log_S s1 @ [Invoked f ev] \<rparr>
      in case beh f ev of
           Throws e \<Rightarrow> (Returns, handleError e ev onErr k s2)
         | _ \<Rightarrow> (Returns, s2))"

text \<open>
  \<open>notifySubscribers\<close> walks the registry with \<open>Map.forEach\<close> and each set with
  \<open>Set.forEach\<close>, which skip an entry that was deleted before its turn. The functions
  that run during the walk only delete entries, so the walk is over the entries present
  at its start, each one skipped if it is gone when its turn comes. A promise that
  rejects is handled in a microtask after the walk: the rejections are kept in order and
  handled when the walk is over.
\<close>

definition snapshot_S :: "string \<Rightarrow> hub_S \<Rightarrow> (string \<times> subscriber_S) list" where
  "snapshot_S k s =
     concat (map (\<lambda>(query, subs). if matchQuery_S k query then map (Pair query) subs else [])
                 (subscribers_S s))"

definition live_S :: "string \<Rightarrow> subscriber_S \<Rightarrow> hub_S \<Rightarrow> bool" where
  "live_S query sub s =
     (case jsmap_get (subscribers_S s) query of
        None \<Rightarrow> False
      | Some subs \<Rightarrow> sid sub \<in> sid ` set subs)"

fun dispatch_S ::
  "(nat \<Rightarrow> hubEvent \<Rightarrow> outcome) \<Rightarrow> hubEvent \<Rightarrow> (string \<times> subscriber_S) list \<Rightarrow> hub_S
     \<Rightarrow> (nat option \<times> string \<times> jsval) list \<times> hub_S" where
  "dispatch_S beh ev [] s = ([], s)"
| "dispatch_S beh ev ((query, sub) # rest) s =
     (if live_S query sub s then
        (case invoke_S beh (callback_S sub) ev s of
           (Returns, s1) \<Rightarrow> dispatch_S beh ev rest s1
         | (Throws e, s1) \<Rightarrow> dispatch_S beh ev rest (handleError e ev (onError_S sub) query s1)
         | (Rejects e, s1) \<Rightarrow>
             (case dispatch_S beh ev rest s1 of
                (rejected, s2) \<Rightarrow> ((onError_S sub, query, e) # rejected, s2)))
      else dispatch_S beh ev rest s)"

definition notifySubscribers_S :: "(nat \<Rightarrow> hubEvent \<Rightarrow> outcome) \<Rightarrow> hubEvent \<Rightarrow> hub_S \<Rightarrow> hub_S" where
  "notifySubscribers_S beh ev s =
     (case dispatch_S beh ev (snapshot_S (key ev) s) s of
        (rejected, s1) \<Rightarrow> fold (\<lambda>(handler, query, e). handleError e ev handler query) rejected s1)"

text \<open>
  A write to \<open>eventRegistry\<close> makes pending every combine-latest effect that read the
  registry itself in its last run or one of whose keys changed.
\<close>

fun registry_changed :: "(string \<Rightarrow> bool) \<Rightarrow> effect_S \<Rightarrow> effect_S" where
  "registry_changed changed x =
     (case body x of
        CombineEffect keys f replayLatest onErr sortBy \<Rightarrow>
          x\<lparr> dirty := dirty x \<or> readRegistry x \<or> (\<exists>k \<in> set keys. changed k) \<rparr>
      | UntilEffect sig g \<Rightarrow> x)"

definition publish_S :: "(nat \<Rightarrow> hubEvent \<Rightarrow> outcome) \<Rightarrow> string \<Rightarrow> jsval \<Rightarrow> nat \<Rightarrow> hub_S \<Rightarrow> (error + unit) \<times> hub_S" where
  "publish_S beh k d now s =
     (if k = [] then (Inl KeyEmpty, s)
      else
        (let ev = \<lparr> key = k, data = d, timestamp = now \<rparr>;
             s1 = s\<lparr> eventRegistry_S := jsmap_set k ev (eventRegistry_S s),
                     effects := map (registry_changed (\<lambda>k'. k' = k)) (effects s) \<rparr>
         in (Inr (), notifySubscribers_S beh ev s1)))"

definition clearEvent_S :: "string \<Rightarrow> hub_S \<Rightarrow> (error + unit) \<times> hub_S" where
  "clearEvent_S k s =
     (if k = [] then (Inl KeyEmpty, s)
      else (Inr (), s\<lparr> eventRegistry_S := jsmap_delete k (eventRegistry_S s),
                        effects := map (registry_changed
                                          (\<lambda>k'. k' = k \<and> jsmap_get (eventRegistry_S s) k \<noteq> None))
                                       (effects s) \<rparr>))"

definition reset_S :: "bool \<Rightarrow> hub_S \<Rightarrow> hub_S" where
  "reset_S clearSubscribers s =
     (let s1 = s\<lparr> eventRegistry_S := [],
                  effects := map (registry_changed (\<lambda>k'. jsmap_get (eventRegistry_S s) k' \<noteq> None))
                                 (effects s) \<rparr>
      in if clearSubscribers then s1\<lparr> subscribers_S := [] \<rparr> else s1)"

subsection \<open>Subscribing\<close>

definition internalSubscribe_S ::
  "string \<Rightarrow> callback_S \<Rightarrow> nat option \<Rightarrow> nat option \<Rightarrow> bool \<Rightarrow> hub_S \<Rightarrow> unsub_S \<times> hub_S" where
  "internalSubscribe_S query cb destroyRef onErr once s =
     (let n = nextId s;
          subscriber = \<lparr> sid = n,
                         callback_S = (if once then OnceWrapper query n cb else cb),
                         onError_S = onErr \<rparr>;
          subscriberSet = (case jsmap_get (subscribers_S s) query of None \<Rightarrow> [] | Some ss \<Rightarrow> ss);
          s1 = s\<lparr> nextId := Suc n,
                  subscribers_S := jsmap_set query (subscriberSet @ [subscriber]) (subscribers_S s) \<rparr>
      in case destroyRef of
           None \<Rightarrow> (UnsubEntry query n, s1)
         | Some r \<Rightarrow> (UnsubEntry query n,
                      s1\<lparr> destroyHooks_S := destroyHooks_S s1 @ [(r, UnsubEntry query n)] \<rparr>))"

text \<open>
  The option \<open>until\<close>: absent, one condition, or an array of conditions. A condition is
  a stop key or a boolean signal, named by a number; \<open>signals\<close> holds the signals'
  current values.
\<close>

datatype condition = StopKey string | StopSignal nat

datatype until = UntilAbsent | UntilOne condition | UntilMany "condition list"

text \<open>\<open>if (until)\<close> and \<open>Array.isArray(until) ? until : [until]\<close>: the empty string is falsy.\<close>

fun conditions_of :: "until \<Rightarrow> condition list option" where
  "conditions_of UntilAbsent = None"
| "conditions_of (UntilOne (StopKey k)) = (if k = [] then None else Some [StopKey k])"
| "conditions_of (UntilOne (StopSignal sig)) = Some [StopSignal sig]"
| "conditions_of (UntilMany cs) = Some cs"

fun is_true_signal :: "hub_S \<Rightarrow> condition \<Rightarrow> bool" where
  "is_true_signal s (StopKey k) = False"
| "is_true_signal s (StopSignal sig) = signals s sig"

text \<open>
  The body of the loop \<open>for (const condition of conditions)\<close> of the call of \<open>on\<close>
  numbered \<open>g\<close>, and the loop.
\<close>

fun install_condition :: "nat \<Rightarrow> condition \<Rightarrow> hub_S \<Rightarrow> hub_S" where
  "install_condition g (StopKey k) s =
     (case internalSubscribe_S k (UnsubscribeAllFn g) None None True s of
        (u, s1) \<Rightarrow>
          s1\<lparr> onVars := (onVars s1)(g := (onVars s1 g)\<lparr> unsubscribers := unsubscribers (onVars s1 g) @ [u] \<rparr>) \<rparr>)"
| "install_condition g (StopSignal sig) s =
     (let e = nextId s;
          s1 = s\<lparr> nextId := Suc e,
                  effects := effects s @ [\<lparr> eid = e, body = UntilEffect sig g, dirty = True, readRegistry = False \<rparr>] \<rparr>
      in s1\<lparr> onVars := (onVars s1)(g := (onVars s1 g)\<lparr> unsubscribers := unsubscribers (onVars s1 g) @ [DestroyEffect e] \<rparr>) \<rparr>)"

fun install_conditions :: "nat \<Rightarrow> condition list \<Rightarrow> hub_S \<Rightarrow> hub_S" where
  "install_conditions g [] s = s"
| "install_conditions g (c # cs) s = install_conditions g cs (install_condition g c s)"

record options_S =
  opt_key_S :: string
  opt_callback_S :: "callback_S option"
  opt_destroyRef_S :: "nat option"
  opt_replayLatest_S :: bool
  opt_onError_S :: "nat option"
  opt_until :: until

text \<open>
  \<open>on\<close> (also exported as \<open>subscribe\<close>). The variables of the call are allocated once it
  is known that the call installs something; before that nothing refers to them.
\<close>

definition on_S :: "(nat \<Rightarrow> hubEvent \<Rightarrow> outcome) \<Rightarrow> options_S \<Rightarrow> hub_S \<Rightarrow> (error + handle_S) \<times> hub_S" where
  "on_S beh opts s =
     (if opt_key_S opts = [] then (Inl KeyEmpty, s)
      else case opt_callback_S opts of
        None \<Rightarrow> (Inl CallbackNotFunction, s)
      | Some cb \<Rightarrow>
          (if (case conditions_of (opt_until opts) of
                 None \<Rightarrow> False
               | Some conditions \<Rightarrow> list_ex (is_true_signal s) conditions)
           then (Inr InertHandle, s)
           else
             (let g = nextId s;
                  s0 = s\<lparr> nextId := Suc g,
                          onVars := (onVars s)(g := \<lparr> unsubscribers = [], mainSubscription = None \<rparr>) \<rparr>;
                  s1 = (case conditions_of (opt_until opts) of
                          None \<Rightarrow> s0
                        | Some conditions \<Rightarrow> install_conditions g conditions s0);
                  s2 = (if opt_replayLatest_S opts then
                          (case findLatestEventForKey (opt_key_S opts) (eventRegistry_S s1) of
                             None \<Rightarrow> s1
                           | Some latestEvent \<Rightarrow>
                               (case invoke_S beh cb latestEvent s1 of
                                  (Throws e, s') \<Rightarrow>
                                    handleError e latestEvent (opt_onError_S opts) (opt_key_S opts) s'
                                | (_, s') \<Rightarrow> s'))
                        else s1)
              in case internalSubscribe_S (opt_key_S opts) cb (opt_destroyRef_S opts)
                        (opt_onError_S opts) False s2 of
                   (u, s3) \<Rightarrow>
                     (Inr (OnHandle g),
                      s3\<lparr> onVars := (onVars s3)(g := (onVars s3 g)\<lparr> mainSubscription := Some u \<rparr>) \<rparr>))))"

text \<open>\<open>once\<close> passes \<open>key\<close>, \<open>replayLatest\<close>, \<open>onError\<close> and \<open>until\<close> on, with \<open>onceCallback\<close>.\<close>

definition once_S ::
  "(nat \<Rightarrow> hubEvent \<Rightarrow> outcome) \<Rightarrow> string \<Rightarrow> nat \<Rightarrow> bool \<Rightarrow> nat option \<Rightarrow> until \<Rightarrow> hub_S
     \<Rightarrow> (error + handle_S) \<times> hub_S" where
  "once_S beh k f replayLatest onErr untl s =
     (let c = nextId s;
          s0 = s\<lparr> nextId := Suc c, onceCell := (onceCell s)(c := None) \<rparr>
      in case on_S beh \<lparr> opt_key_S = k, opt_callback_S = Some (OnceCallback c f onErr k),
                         opt_destroyRef_S = None, opt_replayLatest_S = replayLatest,
                         opt_onError_S = onErr, opt_until = untl \<rparr> s0 of
           (Inl e, s1) \<Rightarrow> (Inl e, s1)
         | (Inr h, s1) \<Rightarrow> (Inr h, s1\<lparr> onceCell := (onceCell s1)(c := Some h) \<rparr>))"

text \<open>The first key that \<open>toSignal\<close> refuses, as \<open>keys.map((key) => this.toSignal(key))\<close> meets it.\<close>

fun first_toSignal_error :: "string list \<Rightarrow> error option" where
  "first_toSignal_error [] = None"
| "first_toSignal_error (k # ks) =
     (case toSignal_S k [] of Inl e \<Rightarrow> Some e | Inr v \<Rightarrow> first_toSignal_error ks)"

definition onCombineLatest_S ::
  "string list \<Rightarrow> nat \<Rightarrow> nat option \<Rightarrow> bool \<Rightarrow> nat option \<Rightarrow> sortBy option \<Rightarrow> hub_S
     \<Rightarrow> (error + handle_S) \<times> hub_S" where
  "onCombineLatest_S keys f destroyRef replayLatest onErr sortBy s =
     (if keys = [] then (Inl KeysEmpty, s)
      else case first_toSignal_error keys of
        Some e \<Rightarrow> (Inl e, s)
      | None \<Rightarrow>
          (let e = nextId s;
               s1 = s\<lparr> nextId := Suc e,
                       effects := effects s @
                         [\<lparr> eid = e, body = CombineEffect keys f replayLatest onErr sortBy,
                            dirty = True, readRegistry = False \<rparr>] \<rparr>
           in case destroyRef of
                None \<Rightarrow> (Inr (EffectHandle e), s1)
              | Some r \<Rightarrow> (Inr (EffectHandle e),
                           s1\<lparr> destroyHooks_S := destroyHooks_S s1 @ [(r, DestroyEffect e)] \<rparr>)))"

subsection \<open>Signals and the scheduler tick\<close>

text \<open>A boolean signal of the caller takes a new value: the effects that read it are pending.\<close>

definition set_signal :: "nat \<Rightarrow> bool \<Rightarrow> hub_S \<Rightarrow> hub_S" where
  "set_signal sig v s =
     (if signals s sig = v then s
      else s\<lparr> signals := (signals s)(sig := v),
              effects := map (\<lambda>x. case body x of
                                     UntilEffect sig' g \<Rightarrow> if sig' = sig then x\<lparr> dirty := True \<rparr> else x
                                   | CombineEffect keys f replayLatest onErr sortBy \<Rightarrow> x)
                             (effects s) \<rparr>)"

definition set_effect :: "effect_S \<Rightarrow> hub_S \<Rightarrow> hub_S" where
  "set_effect x s = s\<lparr> effects := map (\<lambda>y. if eid y = eid x then x else y) (effects s) \<rparr>"

text \<open>One run of an effect's function.\<close>

fun run_effect_S ::
  "(nat \<Rightarrow> hubEvent list \<Rightarrow> outcome) \<Rightarrow> (string \<Rightarrow> string \<Rightarrow> int) \<Rightarrow> effect_S \<Rightarrow> hub_S \<Rightarrow> hub_S" where
  "run_effect_S behMany localeCompare x s =
     (case body x of
        UntilEffect sig g \<Rightarrow>
          (let s1 = set_effect (x\<lparr> dirty := False \<rparr>) s
           in if signals s1 sig then unsubscribeAll_S g s1 else s1)
      | CombineEffect keys f replayLatest onErr sortBy \<Rightarrow>
          (case combinedSignal localeCompare keys sortBy (eventRegistry_S s) of
             None \<Rightarrow> set_effect (x\<lparr> dirty := False, readRegistry := False \<rparr>) s
           | Some combinedEvents \<Rightarrow>
               (if \<not> replayLatest \<and> length (eventRegistry_S s) = 0
                then set_effect (x\<lparr> dirty := False, readRegistry := True \<rparr>) s
                else
                  (let s1 = set_effect (x\<lparr> dirty := False, readRegistry := \<not> replayLatest \<rparr>) s;
                       s2 = s1\<lparr> log_S := log_S s1 @ [InvokedMany f combinedEvents] \<rparr>
                   in case behMany f combinedEvents of
                        Throws e \<Rightarrow>
                          (case onErr of
                             Some h \<Rightarrow> s2\<lparr> log_S := log_S s2 @ [HandledMany h e combinedEvents] \<rparr>
                           | None \<Rightarrow> s2\<lparr> log_S := log_S s2 @ [Warned (concat keys) e] \<rparr>)
                      | _ \<Rightarrow> s2))))"

text \<open>The tick: every effect that is pending when its turn comes, and still alive, runs once.\<close>

fun flush_loop ::
  "(nat \<Rightarrow> hubEvent list \<Rightarrow> outcome) \<Rightarrow> (string \<Rightarrow> string \<Rightarrow> int) \<Rightarrow> nat list \<Rightarrow> hub_S \<Rightarrow> hub_S" where
  "flush_loop behMany localeCompare [] s = s"
| "flush_loop behMany localeCompare (e # es) s =
     flush_loop behMany localeCompare es
       (case find (\<lambda>x. eid x = e) (effects s) of
          None \<Rightarrow> s
        | Some x \<Rightarrow> if dirty x then run_effect_S behMany localeCompare x s else s)"

definition flush_S ::
  "(nat \<Rightarrow> hubEvent list \<Rightarrow> outcome) \<Rightarrow> (string \<Rightarrow> string \<Rightarrow> int) \<Rightarrow> hub_S \<Rightarrow> hub_S" where
  "flush_S behMany localeCompare s = flush_loop behMany localeCompare (map eid (effects s)) s"

section \<open>Auxiliary notions for the statements\<close>

text \<open>Where a failure is routed: the subscriber's own handler, else \<open>console.warn\<close>.\<close>

fun routed :: "nat option \<Rightarrow> string \<Rightarrow> jsval \<Rightarrow> hubEvent \<Rightarrow> log_entry" where
  "routed (Some h) query e ev = Handled h e ev"
| "routed None query e ev = Warned query e"


text \<open>No entry under the pattern holds the function.\<close>

definition absent_Q :: "string \<Rightarrow> callback_Q \<Rightarrow> hub_Q \<Rightarrow> bool" where
  "absent_Q q cb s = (case jsmap_get (subscribers s) q of None \<Rightarrow> True | Some subs \<Rightarrow> list_all (\<lambda>sub. callback sub \<noteq> cb) subs)"


text \<open>A registry of the synchronous hub that holds supplied functions only.\<close>

fun is_user :: "callback_S \<Rightarrow> bool" where
  "is_user (UserFn_S f) = True"
| "is_user cb = False"

definition plain_S :: "hub_S \<Rightarrow> bool" where
  "plain_S s = list_all (\<lambda>(query, subs). list_all (\<lambda>sub. is_user (callback_S sub)) subs) (subscribers_S s)"


text \<open>
  A latest-event registry as \<open>publish\<close> builds it: one entry per key, each event
  stored under its own key.
\<close>

definition registry_ok :: "(string \<times> hubEvent) list \<Rightarrow> bool" where
  "registry_ok registry = (distinct (map fst registry) \<and> list_all (\<lambda>(k, e). key e = k) registry)"

definition selects :: "string \<Rightarrow> string \<Rightarrow> bool" where
  "selects query k =
     (if str_includes query (CHR ''*'') then regex_test (buildWildcardRegex query) k else k = query)"


text \<open>What the loop of \<open>toSignalMultiple\<close> has gathered: entries of the registry, one per key.\<close>

definition collected :: "(string \<times> hubEvent) list \<Rightarrow> (string \<times> hubEvent) list \<Rightarrow> bool" where
  "collected reg m = (set m \<subseteq> set reg \<and> distinct (map fst m))"

definition selected :: "(string \<times> hubEvent) list \<Rightarrow> string list \<Rightarrow> (string \<times> hubEvent) set" where
  "selected reg keys = {(k, e). (k, e) \<in> set reg \<and> (\<exists>q \<in> set keys. q \<noteq> [] \<and> selects q k)}"


text \<open>The calls of one combine-latest callback recorded in a log, in order.\<close>

fun many_calls :: "nat \<Rightarrow> log_entry list \<Rightarrow> hubEvent list list" where
  "many_calls f [] = []"
| "many_calls f (InvokedMany g evs # l) = (if g = f then evs # many_calls f l else many_calls f l)"
| "many_calls f (x # l) = many_calls f l"


text \<open>Two states that differ in the log only, with the same calls of a combine-latest callback.\<close>

definition same_but_log :: "hub_S \<Rightarrow> hub_S \<Rightarrow> nat \<Rightarrow> bool" where
  "same_but_log s s' f = (\<exists>l. s' = s\<lparr> log_S := l \<rparr> \<and> many_calls f l = many_calls f (log_S s))"



section \<open>Lemmas: maps\<close>

lemma jsmap_get_set [simp]:
  "jsmap_get (jsmap_set k v m) k' = (if k' = k then Some v else jsmap_get m k')"
  by (induction m) auto

lemma jsmap_get_delete [simp]:
  "jsmap_get (jsmap_delete k m) k' = (if k' = k then None else jsmap_get m k')"
  by (induction m) (auto simp: jsmap_delete_def)

lemma jsmap_set_idem [simp]: "jsmap_set k v (jsmap_set k v' m) = jsmap_set k v m"
  by (induction m) auto

lemma jsmap_delete_idem [simp]: "jsmap_delete k (jsmap_delete k m) = jsmap_delete k m"
  by (simp add: jsmap_delete_def)

lemma jsmap_delete_absent: "jsmap_get m k = None \<Longrightarrow> jsmap_delete k m = m"
  by (induction m) (auto simp: jsmap_delete_def split: if_splits)


section \<open>Lemmas: the queued hub\<close>

lemma unsubscribe_Q_idem: "unsubscribe_Q q cb (unsubscribe_Q q cb s) = unsubscribe_Q q cb s"
  by (simp add: unsubscribe_Q_def Let_def split: option.splits)

lemma handle_unsubscribe_Q_idem:
  "handle_unsubscribe_Q h (handle_unsubscribe_Q h s) = handle_unsubscribe_Q h s"
  by (cases h) (simp add: unsubscribe_Q_idem)

lemma unsubscribe_Q_absent:
  "jsmap_get (subscribers s) q = None \<Longrightarrow> unsubscribe_Q q cb s = s"
  by (simp add: unsubscribe_Q_def)

lemma handle_unsubscribe_Q_after_bulk:
  "handle_unsubscribe_Q (Handle_Q m q cb) (unsubscribeAll_Q None s) = unsubscribeAll_Q None s"
  "handle_unsubscribe_Q (Handle_Q m q cb) (unsubscribeAll_Q (Some q) s) = unsubscribeAll_Q (Some q) s"
  "handle_unsubscribe_Q (Handle_Q m q cb) (reset_Q True s) = reset_Q True s"
  by (simp_all add: unsubscribe_Q_absent unsubscribeAll_Q_def reset_Q_def)

lemma drain_loop_Q_eq:
  "drain_loop_Q evs reg s =
     (fold (\<lambda>ev. jsmap_set (key ev) ev) evs reg, concat (map (\<lambda>ev. notifySubscribers_Q ev s) evs))"
  by (induction evs arbitrary: reg) simp_all

lemma unsubscribe_Q_frame [simp]:
  "eventRegistry (unsubscribe_Q q cb s) = eventRegistry s"
  "eventQueue (unsubscribe_Q q cb s) = eventQueue s"
  "log (unsubscribe_Q q cb s) = log s"
  "onceVars (unsubscribe_Q q cb s) = onceVars s"
  by (simp_all add: unsubscribe_Q_def Let_def split: option.splits)

lemma handle_unsubscribe_Q_frame [simp]:
  "eventRegistry (handle_unsubscribe_Q h s) = eventRegistry s"
  "eventQueue (handle_unsubscribe_Q h s) = eventQueue s"
  "log (handle_unsubscribe_Q h s) = log s"
  by (cases h; simp)+

lemma invoke_Q_registry:
  "invoke_Q beh cb ev s = (out, spawned, s') \<Longrightarrow> eventRegistry s' = eventRegistry s"
  by (cases cb) (auto simp: Let_def split: if_splits outcome.splits option.splits)

lemma run_job_Q_registry:
  "run_job_Q beh j s = (new, s') \<Longrightarrow> eventRegistry s' = eventRegistry s"
  by (cases j) (auto split: prod.splits outcome.splits option.splits dest: invoke_Q_registry)

lemma run_jobs_Q_registry: "eventRegistry (run_jobs_Q beh js s) = eventRegistry s"
  by (induction beh js s rule: run_jobs_Q.induct) (auto split: prod.splits dest: run_job_Q_registry)

lemma invoke_Q_log:
  "invoke_Q beh cb ev s = (out, spawned, s') \<Longrightarrow> set (log s) \<subseteq> set (log s')"
  by (cases cb) (auto simp: Let_def split: if_splits outcome.splits option.splits)

lemma run_job_Q_log:
  "run_job_Q beh j s = (new, s') \<Longrightarrow> set (log s) \<subseteq> set (log s')"
  by (cases j) (auto split: prod.splits outcome.splits option.splits dest: invoke_Q_log)

lemma run_jobs_Q_log: "set (log s) \<subseteq> set (log (run_jobs_Q beh js s))"
  by (induction beh js s rule: run_jobs_Q.induct) (fastforce split: prod.splits dest: run_job_Q_log)+

lemma run_job_Q_catch: "run_job_Q beh (CatchJob h q e ev) s = ([], s\<lparr> log := log s @ [routed h q e ev] \<rparr>)"
  by (cases h) simp_all

lemma run_jobs_Q_runs_catch:
  "CatchJob h q e ev \<in> set js \<Longrightarrow> routed h q e ev \<in> set (log (run_jobs_Q beh js s))"
proof (induction beh js s rule: run_jobs_Q.induct)
  case (1 beh s)
  then show ?case by simp
next
  case (2 beh j js s)
  obtain new s' where r: "run_job_Q beh j s = (new, s')" by (cases "run_job_Q beh j s")
  show ?case
  proof (cases "j = CatchJob h q e ev")
    case True
    with r have "routed h q e ev \<in> set (log s')" by (cases h) auto
    with run_jobs_Q_log [of s' beh "js @ new"] r show ?thesis by auto
  next
    case False
    with "2.prems" have "CatchJob h q e ev \<in> set (js @ new)" by auto
    from "2.IH" [OF r [symmetric] this] r show ?thesis by simp
  qed
qed

lemma run_job_Q_user:
  "callback sub = UserFn f \<Longrightarrow> run_job_Q beh (CallJob sub q ev) s = (new, s') \<Longrightarrow>
     Invoked f ev \<in> set (log s') \<and>
     (beh f ev = Throws e \<or> beh f ev = Rejects e \<longrightarrow> CatchJob (onError sub) q e ev \<in> set new)"
  by (auto split: outcome.splits)

lemma run_jobs_Q_runs_call:
  "CallJob sub q ev \<in> set js \<Longrightarrow> callback sub = UserFn f \<Longrightarrow>
     Invoked f ev \<in> set (log (run_jobs_Q beh js s)) \<and>
     (beh f ev = Throws e \<or> beh f ev = Rejects e \<longrightarrow>
        routed (onError sub) q e ev \<in> set (log (run_jobs_Q beh js s)))"
proof (induction beh js s rule: run_jobs_Q.induct)
  case (1 beh s)
  then show ?case by simp
next
  case (2 beh j js s)
  obtain new s' where r: "run_job_Q beh j s = (new, s')" by (cases "run_job_Q beh j s")
  show ?case
  proof (cases "j = CallJob sub q ev")
    case True
    from run_job_Q_user [OF "2.prems"(2), of beh q ev s new s' e] r True
    have i: "Invoked f ev \<in> set (log s')"
      and c: "beh f ev = Throws e \<or> beh f ev = Rejects e \<longrightarrow> CatchJob (onError sub) q e ev \<in> set (js @ new)"
      by auto
    from i run_jobs_Q_log [of s' beh "js @ new"] have "Invoked f ev \<in> set (log (run_jobs_Q beh (js @ new) s'))"
      by auto
    moreover from c run_jobs_Q_runs_catch [of "onError sub" q e ev "js @ new" beh s']
    have "beh f ev = Throws e \<or> beh f ev = Rejects e \<longrightarrow>
            routed (onError sub) q e ev \<in> set (log (run_jobs_Q beh (js @ new) s'))"
      by blast
    ultimately show ?thesis using r by simp
  next
    case False
    with "2.prems" have "CallJob sub q ev \<in> set (js @ new)" by auto
    from "2.IH" [OF r [symmetric] this "2.prems"(2)] r show ?thesis by simp
  qed
qed

lemma notifySubscribers_Q_mem:
  "(q, subs) \<in> set (subscribers s) \<Longrightarrow> sub \<in> set subs \<Longrightarrow> matchQuery_Q (key ev) q \<Longrightarrow>
     CallJob sub q ev \<in> set (notifySubscribers_Q ev s)"
  by (force simp: notifySubscribers_Q_def)

lemma effect_Q_jobs:
  "ev \<in> set (eventQueue s) \<Longrightarrow> (q, subs) \<in> set (subscribers s) \<Longrightarrow> sub \<in> set subs \<Longrightarrow>
     matchQuery_Q (key ev) q \<Longrightarrow> CallJob sub q ev \<in> set (fst (effect_Q s))"
  by (auto simp: effect_Q_def drain_loop_Q_eq dest: notifySubscribers_Q_mem)

lemma settle_Q_delivers:
  assumes "ev \<in> set (eventQueue s)" "(q, subs) \<in> set (subscribers s)" "sub \<in> set subs"
    "matchQuery_Q (key ev) q" "callback sub = UserFn f"
  shows "Invoked f ev \<in> set (log (settle_Q beh s)) \<and>
     (beh f ev = Throws e \<or> beh f ev = Rejects e \<longrightarrow>
        routed (onError sub) q e ev \<in> set (log (settle_Q beh s)))"
proof -
  obtain jobs s1 where e: "effect_Q s = (jobs, s1)" by (cases "effect_Q s")
  with effect_Q_jobs [OF assms(1-4)] have "CallJob sub q ev \<in> set jobs" by simp
  from run_jobs_Q_runs_call [OF this assms(5)] e show ?thesis by (simp add: settle_Q_def)
qed

lemma fold_set_last:
  "jsmap_get (fold (\<lambda>ev. jsmap_set (key ev) ev) (evs @ [ev]) reg) (key ev) = Some ev"
  by simp

lemma settle_Q_registry:
  "eventQueue s \<noteq> [] \<Longrightarrow>
     eventRegistry (settle_Q beh s) = fold (\<lambda>ev. jsmap_set (key ev) ev) (eventQueue s) (eventRegistry s)"
  by (simp add: settle_Q_def effect_Q_def drain_loop_Q_eq run_jobs_Q_registry)


lemma unsubscribe_Q_absent_after: "absent_Q q cb (unsubscribe_Q q cb s)"
  by (auto simp: absent_Q_def unsubscribe_Q_def Let_def list_all_iff split: option.splits)

lemma unsubscribe_Q_keeps_absent: "absent_Q q cb s \<Longrightarrow> absent_Q q cb (unsubscribe_Q q' cb' s)"
  by (auto simp: absent_Q_def unsubscribe_Q_def Let_def list_all_iff split: option.splits if_splits)

lemma run_hooks_Q_keeps_absent: "absent_Q q cb s \<Longrightarrow> absent_Q q cb (run_hooks_Q hs r s)"
  by (induction hs r s rule: run_hooks_Q.induct) (auto simp: unsubscribe_Q_keeps_absent)

lemma run_hooks_Q_removes: "(r, q, cb) \<in> set hs \<Longrightarrow> absent_Q q cb (run_hooks_Q hs r s)"
  by (induction hs r s rule: run_hooks_Q.induct)
     (auto simp: run_hooks_Q_keeps_absent unsubscribe_Q_absent_after)

lemma run_hooks_Q_subscribers_only:
  "run_hooks_Q hs r s = s\<lparr> subscribers := subscribers (run_hooks_Q hs r s) \<rparr>"
proof (induction hs r s rule: run_hooks_Q.induct)
  case (1 r s)
  show ?case by simp
next
  case (2 r' query cb hs r s)
  have u: "unsubscribe_Q query cb s = s\<lparr> subscribers := subscribers (unsubscribe_Q query cb s) \<rparr>"
    by (simp add: unsubscribe_Q_def Let_def split: option.splits)
  show ?case
  proof (cases "r' = r")
    case True
    with "2.IH"(1) have "run_hooks_Q hs r (unsubscribe_Q query cb s)
        = (unsubscribe_Q query cb s)\<lparr> subscribers := subscribers (run_hooks_Q hs r (unsubscribe_Q query cb s)) \<rparr>"
      by simp
    also have "\<dots> = s\<lparr> subscribers := subscribers (run_hooks_Q hs r (unsubscribe_Q query cb s)) \<rparr>"
      by (subst u) simp
    finally show ?thesis using True by simp
  next
    case False
    with "2.IH"(2) show ?thesis by simp
  qed
qed

lemma triggerDestroy_Q_removes:
  "(r, q, cb) \<in> set (destroyHooks s) \<Longrightarrow> absent_Q q cb (triggerDestroy_Q r s)"
  using run_hooks_Q_removes [of r q cb "destroyHooks s" s]
  by (simp add: triggerDestroy_Q_def Let_def absent_Q_def)

lemma jsmap_set_mem: "(k, v) \<in> set (jsmap_set k v m)"
  by (induction m) auto


section \<open>Lemmas: the synchronous hub\<close>

lemma jsmap_get_mem: "jsmap_get m k = Some v \<Longrightarrow> (k, v) \<in> set m"
  by (induction m) (auto split: if_splits)

lemma jsmap_set_commute:
  "k \<noteq> k' \<Longrightarrow> jsmap_get m k \<noteq> None \<Longrightarrow> jsmap_get m k' \<noteq> None \<Longrightarrow>
     jsmap_set k v (jsmap_set k' v' m) = jsmap_set k' v' (jsmap_set k v m)"
  by (induction m) auto

lemma jsmap_delete_set:
  "k \<noteq> k' \<Longrightarrow> jsmap_delete k (jsmap_set k' v m) = jsmap_set k' v (jsmap_delete k m)"
  by (induction m) (auto simp: jsmap_delete_def)

lemma jsmap_delete_set_same [simp]: "jsmap_delete k (jsmap_set k v m) = jsmap_delete k m"
  by (induction m) (auto simp: jsmap_delete_def)

lemma jsmap_delete_commute:
  "jsmap_delete k (jsmap_delete k' m) = jsmap_delete k' (jsmap_delete k m)"
  by (auto simp: jsmap_delete_def intro: filter_cong)

lemma filter_sid_commute:
  "filter (\<lambda>sub. sid sub \<noteq> a) (filter (\<lambda>sub. sid sub \<noteq> b) xs) =
   filter (\<lambda>sub. sid sub \<noteq> b) (filter (\<lambda>sub. sid sub \<noteq> a) xs)"
  by (auto intro: filter_cong)

lemma unsubscribe_S_commute:
  "unsubscribe_S q a (unsubscribe_S q' b s) = unsubscribe_S q' b (unsubscribe_S q a s)"
proof (cases "q = q'")
  case True
  show ?thesis
  proof (cases "jsmap_get (subscribers_S s) q")
    case None
    with True show ?thesis by (simp add: unsubscribe_S_def)
  next
    case (Some cs)
    let ?ra = "filter (\<lambda>sub. sid sub \<noteq> a) cs" and ?rb = "filter (\<lambda>sub. sid sub \<noteq> b) cs"
    have c: "filter (\<lambda>sub. sid sub \<noteq> a) ?rb = filter (\<lambda>sub. sid sub \<noteq> b) ?ra"
      by (rule filter_sid_commute)
    have e: "?ra = [] \<Longrightarrow> filter (\<lambda>sub. sid sub \<noteq> a) ?rb = []"
            "?rb = [] \<Longrightarrow> filter (\<lambda>sub. sid sub \<noteq> b) ?ra = []"
      by (auto simp: filter_empty_conv)
    from True Some c e show ?thesis
      by (auto simp: unsubscribe_S_def Let_def)
  qed
next
  case False
  then show ?thesis
    by (auto simp: unsubscribe_S_def Let_def jsmap_set_commute jsmap_delete_set jsmap_delete_commute
             split: option.splits)
qed

lemma unsubscribe_S_idem: "unsubscribe_S q a (unsubscribe_S q a s) = unsubscribe_S q a s"
  by (auto simp: unsubscribe_S_def Let_def split: option.splits)

lemma unsubscribe_S_effects [simp]: "effects (unsubscribe_S q a s) = effects s"
  by (simp add: unsubscribe_S_def Let_def split: option.splits)

lemma unsubscribe_S_effects_update:
  "unsubscribe_S q a (s\<lparr> effects := es \<rparr>) = (unsubscribe_S q a s)\<lparr> effects := es \<rparr>"
  by (simp add: unsubscribe_S_def Let_def split: option.splits)

lemma run_unsub_S_commute:
  "run_unsub_S u (run_unsub_S v s) = run_unsub_S v (run_unsub_S u s)"
proof (cases u; cases v)
  fix q a q' b assume "u = UnsubEntry q a" "v = UnsubEntry q' b"
  then show ?thesis by (simp add: unsubscribe_S_commute)
next
  fix e e' assume "u = DestroyEffect e" "v = DestroyEffect e'"
  then show ?thesis by (simp add: conj_commute)
qed (simp_all add: unsubscribe_S_effects_update)

lemma run_unsub_S_idem: "run_unsub_S u (run_unsub_S u s) = run_unsub_S u s"
  by (cases u) (simp_all add: unsubscribe_S_idem)

lemma fold_run_unsub_S_commute:
  "run_unsub_S u (fold run_unsub_S us s) = fold run_unsub_S us (run_unsub_S u s)"
proof (induction us arbitrary: s)
  case Nil
  show ?case by simp
next
  case (Cons a us)
  have "run_unsub_S u (fold run_unsub_S (a # us) s) = run_unsub_S u (fold run_unsub_S us (run_unsub_S a s))"
    by simp
  also have "\<dots> = fold run_unsub_S us (run_unsub_S u (run_unsub_S a s))"
    by (rule Cons.IH)
  also have "\<dots> = fold run_unsub_S us (run_unsub_S a (run_unsub_S u s))"
    by (simp only: run_unsub_S_commute [of u a])
  finally show ?case by simp
qed

lemma fold_run_unsub_S_idem:
  "fold run_unsub_S us (fold run_unsub_S us s) = fold run_unsub_S us s"
proof (induction us arbitrary: s)
  case Nil
  show ?case by simp
next
  case (Cons u us)
  have "fold run_unsub_S (u # us) (fold run_unsub_S (u # us) s)
          = fold run_unsub_S us (run_unsub_S u (fold run_unsub_S us (run_unsub_S u s)))"
    by simp
  also have "\<dots> = fold run_unsub_S us (fold run_unsub_S us (run_unsub_S u (run_unsub_S u s)))"
    by (simp only: fold_run_unsub_S_commute)
  also have "\<dots> = fold run_unsub_S us (run_unsub_S u s)"
    by (simp only: run_unsub_S_idem Cons.IH)
  finally show ?case by simp
qed

lemma run_unsub_S_onVars [simp]: "onVars (run_unsub_S u s) = onVars s"
  by (cases u) (simp_all add: unsubscribe_S_def Let_def split: option.splits)

lemma fold_run_unsub_S_onVars [simp]: "onVars (fold run_unsub_S us s) = onVars s"
  by (induction us arbitrary: s) simp_all

lemma unsubscribeAll_S_fold:
  "unsubscribeAll_S g s =
     fold run_unsub_S (unsubscribers (onVars s g) @ (case mainSubscription (onVars s g) of None \<Rightarrow> [] | Some u \<Rightarrow> [u])) s"
  by (simp add: unsubscribeAll_S_def Let_def split: option.splits)

lemma unsubscribeAll_S_idem: "unsubscribeAll_S g (unsubscribeAll_S g s) = unsubscribeAll_S g s"
  unfolding unsubscribeAll_S_fold by (simp only: fold_run_unsub_S_onVars fold_run_unsub_S_idem)

lemma handle_unsubscribe_S_idem:
  "handle_unsubscribe_S h (handle_unsubscribe_S h s) = handle_unsubscribe_S h s"
  by (cases h) (simp_all add: unsubscribeAll_S_idem del: run_unsub_S.simps add: run_unsub_S_idem)

lemma run_unsub_S_no_subscribers:
  "subscribers_S s = [] \<Longrightarrow> subscribers_S (run_unsub_S u s) = []"
  by (cases u) (simp_all add: unsubscribe_S_def)

lemma fold_run_unsub_S_no_subscribers:
  "subscribers_S s = [] \<Longrightarrow> subscribers_S (fold run_unsub_S us s) = []"
  by (induction us arbitrary: s) (simp_all add: run_unsub_S_no_subscribers)

lemma handle_unsubscribe_S_no_subscribers:
  "subscribers_S s = [] \<Longrightarrow> subscribers_S (handle_unsubscribe_S h s) = []"
  by (cases h) (simp_all add: unsubscribeAll_S_fold fold_run_unsub_S_no_subscribers del: fold_append)


lemma is_user_iff: "is_user cb = (\<exists>f. cb = UserFn_S f)"
  by (cases cb) auto

lemma handleError_routed: "handleError e ev h q s = s\<lparr> log_S := log_S s @ [routed h q e ev] \<rparr>"
  by (cases h) (simp_all add: handleError_def)

lemma dispatch_S_plain:
  assumes "\<forall>(q, sub) \<in> set rest. is_user (callback_S sub) \<and> live_S q sub s"
  shows "\<exists>rejected s'. dispatch_S beh ev rest s = (rejected, s')
     \<and> subscribers_S s' = subscribers_S s
     \<and> set (log_S s) \<subseteq> set (log_S s')
     \<and> (\<forall>(q, sub) \<in> set rest. \<forall>f. callback_S sub = UserFn_S f \<longrightarrow>
           Invoked f ev \<in> set (log_S s')
           \<and> (\<forall>e. beh f ev = Throws e \<longrightarrow> routed (onError_S sub) q e ev \<in> set (log_S s'))
           \<and> (\<forall>e. beh f ev = Rejects e \<longrightarrow> (onError_S sub, q, e) \<in> set rejected))"
  using assms
proof (induction rest arbitrary: s)
  case Nil
  show ?case by simp
next
  case (Cons p rest)
  obtain q sub where p: "p = (q, sub)" by (cases p)
  from Cons.prems p obtain f where f: "callback_S sub = UserFn_S f" and l: "live_S q sub s"
    by (auto simp: is_user_iff)
  let ?s1 = "s\<lparr> log_S := log_S s @ [Invoked f ev] \<rparr>"
  let ?t = "(case beh f ev of Throws e \<Rightarrow> handleError e ev (onError_S sub) q ?s1 | _ \<Rightarrow> ?s1)"
  have subs_t: "subscribers_S ?t = subscribers_S s"
    by (simp add: handleError_routed split: outcome.splits)
  have log_t: "set (log_S s) \<subseteq> set (log_S ?t)" "Invoked f ev \<in> set (log_S ?t)"
       "\<And>e. beh f ev = Throws e \<Longrightarrow> routed (onError_S sub) q e ev \<in> set (log_S ?t)"
    by (auto simp: handleError_routed split: outcome.splits)
  have "\<forall>(q, sub) \<in> set rest. is_user (callback_S sub) \<and> live_S q sub ?t"
    using Cons.prems subs_t by (auto simp: live_S_def)
  from Cons.IH [OF this] obtain rejected s' where
    d: "dispatch_S beh ev rest ?t = (rejected, s')"
    and subs: "subscribers_S s' = subscribers_S ?t"
    and lg: "set (log_S ?t) \<subseteq> set (log_S s')"
    and rest: "\<forall>(q, sub) \<in> set rest. \<forall>f. callback_S sub = UserFn_S f \<longrightarrow>
           Invoked f ev \<in> set (log_S s')
           \<and> (\<forall>e. beh f ev = Throws e \<longrightarrow> routed (onError_S sub) q e ev \<in> set (log_S s'))
           \<and> (\<forall>e. beh f ev = Rejects e \<longrightarrow> (onError_S sub, q, e) \<in> set rejected)"
    by blast
  show ?case
  proof (cases "beh f ev")
    case Returns
    with d p f l have "dispatch_S beh ev (p # rest) s = (rejected, s')" by simp
    with subs subs_t lg log_t rest p f Returns show ?thesis by auto
  next
    case (Throws e)
    with d p f l have "dispatch_S beh ev (p # rest) s = (rejected, s')" by simp
    with subs subs_t lg log_t rest p f Throws show ?thesis by auto
  next
    case (Rejects e)
    with d p f l have "dispatch_S beh ev (p # rest) s = ((onError_S sub, q, e) # rejected, s')" by simp
    with subs subs_t lg log_t rest p f Rejects show ?thesis by auto
  qed
qed

lemma fold_handleError_log:
  "set (log_S s) \<subseteq> set (log_S (fold (\<lambda>(handler, query, e). handleError e ev handler query) rejected s))
   \<and> (\<forall>(h, q, e) \<in> set rejected.
         routed h q e ev \<in> set (log_S (fold (\<lambda>(handler, query, e). handleError e ev handler query) rejected s)))"
proof (induction rejected arbitrary: s)
  case Nil
  show ?case by simp
next
  case (Cons r rejected)
  obtain h q e where r: "r = (h, q, e)" by (cases r)
  from Cons.IH [of "handleError e ev h q s"] r show ?case
    by (auto simp: handleError_routed)
qed

lemma snapshot_S_mem:
  "(q, subs) \<in> set (subscribers_S s) \<Longrightarrow> sub \<in> set subs \<Longrightarrow> matchQuery_S k q \<Longrightarrow>
     (q, sub) \<in> set (snapshot_S k s)"
  by (force simp: snapshot_S_def)

lemma jsmap_get_distinct_mem:
  "distinct (map fst m) \<Longrightarrow> (k, v) \<in> set m \<Longrightarrow> jsmap_get m k = Some v"
  by (induction m) (auto simp: rev_image_eqI)

lemma snapshot_S_plain_live:
  assumes "plain_S s" "distinct (map fst (subscribers_S s))"
  shows "\<forall>(q, sub) \<in> set (snapshot_S k s). is_user (callback_S sub) \<and> live_S q sub s"
  using assms
  by (auto simp: snapshot_S_def plain_S_def list_all_iff live_S_def jsmap_get_distinct_mem
           split: if_splits)

lemma notifySubscribers_S_plain:
  assumes "plain_S s" "distinct (map fst (subscribers_S s))"
    and "jsmap_get (subscribers_S s) q = Some subs" "sub \<in> set subs" "matchQuery_S (key ev) q"
    and "callback_S sub = UserFn_S f"
  shows "Invoked f ev \<in> set (log_S (notifySubscribers_S beh ev s))
     \<and> (beh f ev = Throws e \<or> beh f ev = Rejects e \<longrightarrow>
          routed (onError_S sub) q e ev \<in> set (log_S (notifySubscribers_S beh ev s)))"
proof -
  from dispatch_S_plain [OF snapshot_S_plain_live [OF assms(1,2), of "key ev"], where beh = beh and ev = ev]
  obtain rejected s' where
    d: "dispatch_S beh ev (snapshot_S (key ev) s) s = (rejected, s')"
    and r: "\<forall>(q, sub) \<in> set (snapshot_S (key ev) s). \<forall>f. callback_S sub = UserFn_S f \<longrightarrow>
           Invoked f ev \<in> set (log_S s')
           \<and> (\<forall>e. beh f ev = Throws e \<longrightarrow> routed (onError_S sub) q e ev \<in> set (log_S s'))
           \<and> (\<forall>e. beh f ev = Rejects e \<longrightarrow> (onError_S sub, q, e) \<in> set rejected)"
    by blast
  have "(q, sub) \<in> set (snapshot_S (key ev) s)"
    using assms(3-5) by (auto intro: snapshot_S_mem dest: jsmap_get_mem)
  with r assms(6) have i: "Invoked f ev \<in> set (log_S s')"
    and t: "beh f ev = Throws e \<Longrightarrow> routed (onError_S sub) q e ev \<in> set (log_S s')"
    and j: "beh f ev = Rejects e \<Longrightarrow> (onError_S sub, q, e) \<in> set rejected"
    by auto
  from fold_handleError_log [of s' ev rejected] i t j d show ?thesis
    by (auto simp: notifySubscribers_S_def)
qed


lemma regex_test_self: "regex_test (buildWildcardRegex q) q"
  by (induction q) (auto simp: buildWildcardRegex_def)

lemma selects_matchQuery_S: "q \<noteq> ''*'' \<Longrightarrow> selects q k = matchQuery_S k q"
  using regex_test_self [of q] by (auto simp: selects_def matchQuery_S_def)

lemma set_insert_by [simp]: "set (insert_by cmp x xs) = insert x (set xs)"
  by (induction xs) auto

lemma set_js_sort [simp]: "set (js_sort cmp xs) = set xs"
  by (induction xs) (auto simp: js_sort_def)

lemma distinct_map_insert_by:
  "distinct (map f (insert_by cmp x xs)) = (f x \<notin> f ` set xs \<and> distinct (map f xs))"
  by (induction xs) auto

lemma distinct_map_js_sort: "distinct (map f (js_sort cmp xs)) = distinct (map f xs)"
proof (induction xs)
  case Nil
  show ?case by (simp add: js_sort_def)
next
  case (Cons x xs)
  have "js_sort cmp (x # xs) = insert_by cmp x (js_sort cmp xs)" by (simp add: js_sort_def)
  with Cons show ?case by (simp add: distinct_map_insert_by)
qed

lemma sorted_insert_by:
  assumes tot: "\<And>a b. cmp a b \<le> 0 \<or> cmp b a \<le> 0"
    and trans: "\<And>a b c. cmp a b \<le> 0 \<Longrightarrow> cmp b c \<le> 0 \<Longrightarrow> cmp a c \<le> 0"
  shows "sorted_wrt (\<lambda>a b. cmp a b \<le> 0) xs \<Longrightarrow> sorted_wrt (\<lambda>a b. cmp a b \<le> 0) (insert_by cmp x xs)"
proof (induction xs)
  case Nil
  show ?case by simp
next
  case (Cons y ys)
  show ?case
  proof (cases "cmp x y \<le> 0")
    case True
    with Cons.prems trans show ?thesis by auto
  next
    case False
    with tot [of x y] have "cmp y x \<le> 0" by simp
    with False Cons show ?thesis by auto
  qed
qed

lemma sorted_js_sort:
  assumes tot: "\<And>a b. cmp a b \<le> 0 \<or> cmp b a \<le> 0"
    and trans: "\<And>a b c. cmp a b \<le> 0 \<Longrightarrow> cmp b c \<le> 0 \<Longrightarrow> cmp a c \<le> 0"
  shows "sorted_wrt (\<lambda>a b. cmp a b \<le> 0) (js_sort cmp xs)"
proof (induction xs)
  case Nil
  show ?case by (simp add: js_sort_def)
next
  case (Cons x xs)
  have "js_sort cmp (x # xs) = insert_by cmp x (js_sort cmp xs)" by (simp add: js_sort_def)
  with sorted_insert_by [of cmp, OF tot trans Cons] show ?case by simp
qed

lemma jsmap_get_distinct_none:
  "jsmap_get m k = None \<Longrightarrow> (k, v) \<in> set m \<Longrightarrow> False"
  by (induction m) (auto split: if_splits)

lemma jsmap_set_keys:
  "map fst (jsmap_set k v m) = (if k \<in> fst ` set m then map fst m else map fst m @ [k])"
  by (induction m) (fastforce simp: image_iff)+

lemma jsmap_set_distinct: "distinct (map fst m) \<Longrightarrow> distinct (map fst (jsmap_set k v m))"
  by (simp add: jsmap_set_keys)

lemma set_jsmap_set_sub:
  assumes "distinct (map fst reg)" "set m \<subseteq> set reg" "(k, v) \<in> set reg"
  shows "set (jsmap_set k v m) = insert (k, v) (set m)"
  using assms(2)
proof (induction m)
  case Nil
  show ?case by simp
next
  case (Cons p m)
  obtain k' v' where p: "p = (k', v')" by (cases p)
  show ?case
  proof (cases "k' = k")
    case True
    from Cons.prems p True have "(k, v') \<in> set reg" by simp
    with assms(1,3) have "v' = v" by (meson eq_key_imp_eq_value)
    with p True show ?thesis by auto
  next
    case False
    with Cons p show ?thesis by auto
  qed
qed

lemma collect_matching_ok:
  assumes d: "distinct (map fst reg)"
  shows "set entries \<subseteq> set reg \<Longrightarrow> collected reg m \<Longrightarrow>
     collected reg (collect_matching regex entries m)
     \<and> set (collect_matching regex entries m) = set m \<union> {(k, e). (k, e) \<in> set entries \<and> regex_test regex k}"
proof (induction entries arbitrary: m)
  case Nil
  then show ?case by simp
next
  case (Cons p entries)
  obtain k e where p: "p = (k, e)" by (cases p)
  show ?case
  proof (cases "regex_test regex k")
    case True
    from Cons.prems p have in_reg: "(k, e) \<in> set reg" by simp
    from Cons.prems(2) have sub: "set m \<subseteq> set reg" and dm: "distinct (map fst m)"
      by (simp_all add: collected_def)
    have s: "set (jsmap_set k e m) = insert (k, e) (set m)"
      by (rule set_jsmap_set_sub [OF d sub in_reg])
    with in_reg sub dm have c: "collected reg (jsmap_set k e m)"
      by (simp add: collected_def jsmap_set_distinct)
    from Cons.IH [OF _ c] Cons.prems(1) p True s show ?thesis by auto
  next
    case False
    from Cons.IH [OF _ Cons.prems(2)] Cons.prems(1) p False show ?thesis by auto
  qed
qed

lemma selected_Cons: "selected reg (q # keys) = selected reg [q] \<union> selected reg keys"
  by (auto simp: selected_def)

lemma collect_keys_step:
  assumes ok: "registry_ok reg" and c: "collected reg m"
  shows "collected reg (collect_query q reg m) \<and> set (collect_query q reg m) = set m \<union> selected reg [q]"
proof -
  from ok have d: "distinct (map fst reg)" and ke: "\<And>k e. (k, e) \<in> set reg \<Longrightarrow> key e = k"
    by (auto simp: registry_ok_def list_all_iff)
  from c have sub: "set m \<subseteq> set reg" and dm: "distinct (map fst m)"
    by (simp_all add: collected_def)
  consider (empty) "q = []" | (exact) "q \<noteq> []" "\<not> str_includes q (CHR ''*'')"
    | (wild) "q \<noteq> []" "str_includes q (CHR ''*'')"
    by blast
  then show ?thesis
  proof cases
    case empty
    then have "collect_query q reg m = m" "selected reg [q] = {}" by (simp_all add: collect_query_def selected_def)
    with c show ?thesis by simp
  next
    case exact
    have mem: "\<And>k v. ((k, v) \<in> set reg) = (jsmap_get reg k = Some v)"
      using d by (blast intro: jsmap_get_mem jsmap_get_distinct_mem)
    from exact have sel: "selected reg [q] = {(k, e). jsmap_get reg k = Some e \<and> k = q}"
      by (simp add: selected_def selects_def mem)
    show ?thesis
    proof (cases "jsmap_get reg q")
      case None
      with sel have "selected reg [q] = {}" by auto
      moreover from exact None have "collect_query q reg m = m" by (simp add: collect_query_def)
      ultimately show ?thesis using c by simp
    next
      case (Some e)
      then have in_reg: "(q, e) \<in> set reg" by (rule jsmap_get_mem)
      with ke have kq: "key e = q" by simp
      with exact Some have m1: "collect_query q reg m = jsmap_set q e m" by (simp add: collect_query_def)
      have s: "set (jsmap_set q e m) = insert (q, e) (set m)"
        by (rule set_jsmap_set_sub [OF d sub in_reg])
      from sel Some have se: "selected reg [q] = {(q, e)}" by auto
      have "collected reg (jsmap_set q e m)"
        using s in_reg sub dm by (simp add: collected_def jsmap_set_distinct)
      moreover have "set (jsmap_set q e m) = set m \<union> selected reg [q]"
        unfolding s se by simp
      ultimately show ?thesis unfolding m1 by (rule conjI)
    qed
  next
    case wild
    then have m1: "collect_query q reg m = collect_matching (buildWildcardRegex q) reg m" by (simp add: collect_query_def)
    from wild have sel: "selected reg [q] = {(k, e). (k, e) \<in> set reg \<and> regex_test (buildWildcardRegex q) k}"
      by (auto simp: selected_def selects_def)
    from collect_matching_ok [OF d subset_refl c, of "buildWildcardRegex q"] m1 sel
    show ?thesis by simp
  qed
qed

lemma collect_keys_ok:
  assumes ok: "registry_ok reg"
  shows "collected reg m \<Longrightarrow>
     collected reg (collect_keys keys reg m)
     \<and> set (collect_keys keys reg m) = set m \<union> selected reg keys"
proof (induction keys arbitrary: m)
  case Nil
  then show ?case by (simp add: selected_def)
next
  case (Cons q keys)
  let ?m1 = "collect_query q reg m"
  from collect_keys_step [OF ok Cons.prems, of q]
  have c: "collected reg ?m1" and s: "set ?m1 = set m \<union> selected reg [q]" by simp_all
  have e: "collect_keys (q # keys) reg m = collect_keys keys reg ?m1" by simp
  from Cons.IH [OF c] have "collected reg (collect_keys keys reg ?m1)"
    and "set (collect_keys keys reg ?m1) = set ?m1 \<union> selected reg keys" by simp_all
  with s show ?case
    unfolding e selected_Cons [of reg q keys] by (simp only: Un_assoc simp_thms)
qed


lemma many_calls_append [simp]: "many_calls f (l1 @ l2) = many_calls f l1 @ many_calls f l2"
  by (induction f l1 rule: many_calls.induct) auto

lemma many_calls_routed [simp]: "many_calls f [routed h q e ev] = []"
  by (cases h) auto

lemma same_but_log_refl: "same_but_log s s f"
  unfolding same_but_log_def by (rule exI [of _ "log_S s"]) simp

lemma same_but_log_trans:
  assumes "same_but_log s t f" "same_but_log t u f"
  shows "same_but_log s u f"
proof -
  from assms(1) obtain l where l: "t = s\<lparr> log_S := l \<rparr>" "many_calls f l = many_calls f (log_S s)"
    unfolding same_but_log_def by blast
  from assms(2) obtain l' where l': "u = t\<lparr> log_S := l' \<rparr>" "many_calls f l' = many_calls f (log_S t)"
    unfolding same_but_log_def by blast
  from l l' have "u = s\<lparr> log_S := l' \<rparr> \<and> many_calls f l' = many_calls f (log_S s)" by simp
  then show ?thesis unfolding same_but_log_def by (rule exI)
qed

lemma same_but_log_append:
  "many_calls f l = [] \<Longrightarrow> same_but_log s (s\<lparr> log_S := log_S s @ l \<rparr>) f"
  unfolding same_but_log_def by (rule exI [of _ "log_S s @ l"]) simp

lemma dispatch_S_plain_frame:
  assumes "\<forall>(q, sub) \<in> set rest. is_user (callback_S sub) \<and> live_S q sub s"
  shows "same_but_log s (snd (dispatch_S beh ev rest s)) f"
  using assms
proof (induction rest arbitrary: s)
  case Nil
  show ?case by (simp add: same_but_log_refl)
next
  case (Cons p rest)
  obtain q sub where p: "p = (q, sub)" by (cases p)
  from Cons.prems p obtain g where g: "callback_S sub = UserFn_S g" and l: "live_S q sub s"
    by (auto simp: is_user_iff)
  let ?s1 = "s\<lparr> log_S := log_S s @ [Invoked g ev] \<rparr>"
  let ?t = "(case beh g ev of Throws e \<Rightarrow> handleError e ev (onError_S sub) q ?s1 | _ \<Rightarrow> ?s1)"
  have st: "same_but_log s ?t f"
  proof (cases "beh g ev")
    case (Throws e)
    have "?t = s\<lparr> log_S := log_S s @ [Invoked g ev, routed (onError_S sub) q e ev] \<rparr>"
      using Throws by (simp add: handleError_routed)
    moreover have "many_calls f [Invoked g ev, routed (onError_S sub) q e ev] = []"
      using many_calls_routed [of f "onError_S sub" q e ev] by simp
    ultimately show ?thesis by (simp only: same_but_log_append)
  qed (simp_all add: same_but_log_append)
  have subs_t: "subscribers_S ?t = subscribers_S s"
    by (simp add: handleError_routed split: outcome.splits)
  have "\<forall>(q, sub) \<in> set rest. is_user (callback_S sub) \<and> live_S q sub ?t"
    using Cons.prems subs_t by (auto simp: live_S_def)
  from Cons.IH [OF this] have ih: "same_but_log ?t (snd (dispatch_S beh ev rest ?t)) f" .
  have "snd (dispatch_S beh ev (p # rest) s) = snd (dispatch_S beh ev rest ?t)"
    using p g l by (simp split: outcome.splits prod.splits)
  with same_but_log_trans [OF st ih] show ?case by simp
qed

lemma fold_handleError_frame:
  "same_but_log s (fold (\<lambda>(handler, query, e). handleError e ev handler query) rejected s) f"
proof (induction rejected arbitrary: s)
  case Nil
  show ?case by (simp add: same_but_log_refl)
next
  case (Cons r rejected)
  obtain h q e where r: "r = (h, q, e)" by (cases r)
  have "same_but_log s (handleError e ev h q s) f"
    by (simp add: handleError_routed same_but_log_append)
  from same_but_log_trans [OF this Cons.IH [of "handleError e ev h q s"]] r show ?case by simp
qed

lemma notifySubscribers_S_plain_frame:
  assumes "plain_S s" "distinct (map fst (subscribers_S s))"
  shows "same_but_log s (notifySubscribers_S beh ev s) f"
proof -
  obtain rejected s' where d: "dispatch_S beh ev (snapshot_S (key ev) s) s = (rejected, s')"
    by (cases "dispatch_S beh ev (snapshot_S (key ev) s) s")
  from dispatch_S_plain_frame [OF snapshot_S_plain_live [OF assms, of "key ev"], of beh ev f] d
  have "same_but_log s s' f" by simp
  from same_but_log_trans [OF this fold_handleError_frame [of s' ev rejected f]] d
  show ?thesis by (simp add: notifySubscribers_S_def)
qed

lemma combinedSignal_two:
  "combinedSignal localeCompare [kx, ky] None reg =
     (case (jsmap_get reg kx, jsmap_get reg ky) of (Some a, Some b) \<Rightarrow> Some [a, b] | _ \<Rightarrow> None)"
  by (simp add: combinedSignal_def List.map_filter_def sort_events_def split: option.splits)

lemma jsmap_set_nonempty [simp]: "jsmap_set k v m \<noteq> []"
  by (cases m) (auto split: if_splits)


section \<open>Properties\<close>

text \<open>
  C2. Both key matchers accept the global wildcard for every key, accept
  \<open>a:b\<close> and \<open>a:anything\<close> for the pattern \<open>a:*\<close>, refuse \<open>b:a\<close> and \<open>a\<close> for it,
  and accept every key as a pattern for itself.
\<close>

theorem matchQuery_examples:
  "matchQuery_Q k ''*'' \<and> matchQuery_S k ''*''
   \<and> matchQuery_Q ''a:b'' ''a:*'' \<and> matchQuery_S ''a:b'' ''a:*''
   \<and> matchQuery_Q ''a:anything'' ''a:*'' \<and> matchQuery_S ''a:anything'' ''a:*''
   \<and> \<not> matchQuery_Q ''b:a'' ''a:*'' \<and> \<not> matchQuery_S ''b:a'' ''a:*''
   \<and> \<not> matchQuery_Q ''a'' ''a:*'' \<and> \<not> matchQuery_S ''a'' ''a:*''
   \<and> matchQuery_Q k k \<and> matchQuery_S k k"
  by (simp add: matchQuery_Q_def matchQuery_S_def str_includes_def buildWildcardRegex_def)

text \<open>
  C1. A once-style subscription delivers exactly once, also for two publishes
  dispatched back to back. For \<open>onceAsync\<close> of the queued hub this fails: after
  \<open>onceAsync\<close> on \<open>k\<close> and two publishes to \<open>k\<close> before the queue is drained, the
  supplied callback is called for both events, because the arrow function
  unsubscribes only after the awaited callback and has no \<open>hasRun\<close> guard. The sibling
  \<open>once\<close>, which has the guard and unsubscribes first, calls it once on the same input.
\<close>

theorem onceAsync_Q_delivers_twice:
  "log (settle_Q (\<lambda>f ev. Returns)
         (snd (publish_Q ''k'' (JNum 2) 11
           (snd (publish_Q ''k'' (JNum 1) 10
             (snd (onceAsync_Q (\<lambda>f ev. Returns) ''k'' 0 False None new_hub_Q)))))))
     = [Invoked 0 \<lparr> key = ''k'', data = JNum 1, timestamp = 10 \<rparr>,
        Invoked 0 \<lparr> key = ''k'', data = JNum 2, timestamp = 11 \<rparr>]
   \<and> log (settle_Q (\<lambda>f ev. Returns)
         (snd (publish_Q ''k'' (JNum 2) 11
           (snd (publish_Q ''k'' (JNum 1) 10
             (snd (once_Q (\<lambda>f ev. Returns) ''k'' 0 False None new_hub_Q)))))))
     = [Invoked 0 \<lparr> key = ''k'', data = JNum 1, timestamp = 10 \<rparr>]"
  by (simp add: onceAsync_Q_def subscribeAsync_Q_def once_Q_def subscribe_Q_def
        internalSubscribe_Q_def new_hub_Q_def publish_Q_def settle_Q_def effect_Q_def
        notifySubscribers_Q_def matchQuery_Q_def unsubscribe_Q_def jsmap_delete_def)

text \<open>
  C4, as stated: for every non-empty key and every payload, the latest event after
  publish and settle carries the payload. The queued hub refuses the payloads \<open>null\<close>
  and \<open>undefined\<close>: nothing is queued and the key has no latest event.
\<close>

theorem publish_Q_null_payload_counterexample:
  "publish_Q ''k'' JNull 5 new_hub_Q = (Inl DataNull, new_hub_Q)
   \<and> toSignal_Q ''k'' (settle_Q (\<lambda>f ev. Returns) (snd (publish_Q ''k'' JNull 5 new_hub_Q))) = Inr None"
  by (simp add: publish_Q_def new_hub_Q_def toSignal_Q_def settle_Q_def effect_Q_def)

text \<open>
  C4, amended: for every non-empty key \<open>k\<close> and every payload \<open>d\<close> other than
  \<open>null\<close> and \<open>undefined\<close>, in any state of the queued hub, \<open>publish(k, d)\<close> succeeds
  and, after the queue has been drained, the latest event for \<open>k\<close> has data \<open>d\<close> and a
  timestamp not before any clock reading \<open>t0\<close> taken before the publish (\<open>now\<close> is the
  reading of \<open>Date.now()\<close> inside \<open>publish\<close>; the clock does not run backwards).
\<close>

theorem publish_Q_then_latest:
  assumes "k \<noteq> []" "d \<noteq> JNull" "d \<noteq> JUndefined" "t0 \<le> now"
  shows "\<exists>s1 ev. publish_Q k d now s = (Inr (), s1)
           \<and> toSignal_Q k (settle_Q beh s1) = Inr (Some ev)
           \<and> data ev = d \<and> t0 \<le> timestamp ev"
  using assms by (simp add: publish_Q_def toSignal_Q_def settle_Q_registry)

theorem publish_Q_then_latest_witness:
  "''user:login'' \<noteq> [] \<and> JNum 1 \<noteq> JNull \<and> JNum 1 \<noteq> JUndefined \<and> (3::nat) \<le> 5
   \<and> (\<exists>s1 ev. publish_Q ''user:login'' (JNum 1) 5 new_hub_Q = (Inr (), s1)
         \<and> toSignal_Q ''user:login'' (settle_Q (\<lambda>f ev. Returns) s1) = Inr (Some ev)
         \<and> data ev = JNum 1 \<and> 3 \<le> timestamp ev)"
  using publish_Q_then_latest [of "''user:login''" "JNum 1" 3 5 new_hub_Q "\<lambda>f ev. Returns"]
  by simp

text \<open>
  C5. Publishing with the empty key and subscribing with the empty key fail with the
  invalid-key error, for every payload, callback and option, and return the state they
  were given: the latest-event registry, the event queue and the subscriber registry are
  untouched. This holds for \<open>publish\<close>, \<open>subscribe\<close> and \<open>subscribeAsync\<close> of the queued
  hub and for \<open>publish\<close> and \<open>on\<close> of the synchronous hub.
\<close>

theorem empty_key_rejected_without_effect:
  "publish_Q [] d now s = (Inl KeyEmpty, s)
   \<and> subscribe_Q beh (opts\<lparr> opt_key := [] \<rparr>) s = (Inl KeyEmpty, s)
   \<and> subscribeAsync_Q beh (opts\<lparr> opt_key := [] \<rparr>) s = (Inl KeyEmpty, s)
   \<and> publish_S beh [] d now t = (Inl KeyEmpty, t)
   \<and> on_S beh (opts'\<lparr> opt_key_S := [] \<rparr>) t = (Inl KeyEmpty, t)"
  by (simp add: publish_Q_def subscribe_Q_def subscribeAsync_Q_def publish_S_def on_S_def)

text \<open>
  C9. \<open>handle.unsubscribe()\<close> is idempotent. It is a total function of the state (it
  has no failing branch); a second call right after the first changes nothing, and a call
  after a bulk removal (\<open>unsubscribeAll()\<close>, \<open>unsubscribeAll(pattern)\<close> for the handle's
  pattern, \<open>reset({ clearSubscribers: true })\<close>) leaves the subscriber registry as the
  bulk removal left it, in the queued hub and in the synchronous hub.
\<close>

theorem unsubscribe_idempotent:
  "handle_unsubscribe_Q h (handle_unsubscribe_Q h s) = handle_unsubscribe_Q h s
   \<and> handle_unsubscribe_Q h (unsubscribeAll_Q None s) = unsubscribeAll_Q None s
   \<and> handle_unsubscribe_Q (Handle_Q m q cb) (unsubscribeAll_Q (Some q) s) = unsubscribeAll_Q (Some q) s
   \<and> handle_unsubscribe_Q h (reset_Q True s) = reset_Q True s
   \<and> handle_unsubscribe_S h' (handle_unsubscribe_S h' t) = handle_unsubscribe_S h' t
   \<and> subscribers_S (handle_unsubscribe_S h' (reset_S True t)) = subscribers_S (reset_S True t)"
proof (intro conjI)
  show "handle_unsubscribe_Q h (handle_unsubscribe_Q h s) = handle_unsubscribe_Q h s"
    by (rule handle_unsubscribe_Q_idem)
  show "handle_unsubscribe_Q h (unsubscribeAll_Q None s) = unsubscribeAll_Q None s"
    by (cases h) (simp only: handle_unsubscribe_Q_after_bulk)
  show "handle_unsubscribe_Q (Handle_Q m q cb) (unsubscribeAll_Q (Some q) s) = unsubscribeAll_Q (Some q) s"
    by (rule handle_unsubscribe_Q_after_bulk)
  show "handle_unsubscribe_Q h (reset_Q True s) = reset_Q True s"
    by (cases h) (simp only: handle_unsubscribe_Q_after_bulk)
  show "handle_unsubscribe_S h' (handle_unsubscribe_S h' t) = handle_unsubscribe_S h' t"
    by (rule handle_unsubscribe_S_idem)
  have "subscribers_S (reset_S True t) = []" by (simp add: reset_S_def)
  then show "subscribers_S (handle_unsubscribe_S h' (reset_S True t)) = subscribers_S (reset_S True t)"
    by (simp only: handle_unsubscribe_S_no_subscribers)
qed

text \<open>
  C10. In the queued hub, the handle of a subscription created with a \<open>destroyRef\<close>
  does nothing when \<open>unsubscribe()\<close> is called on it: the state is unchanged, the entry
  is still registered under its pattern and a matching publish after it is delivered to
  the callback; the teardown of the resource removes the entry.
\<close>

theorem destroyRef_handle_does_not_unsubscribe:
  assumes "internalSubscribe_Q q (UserFn f) (Some r) onErr s = (h, s1)" and "log s = []"
  shows "handle_unsubscribe_Q h s1 = s1
     \<and> (\<exists>subs. jsmap_get (subscribers (handle_unsubscribe_Q h s1)) q = Some subs
               \<and> \<lparr> callback = UserFn f, onError = onErr \<rparr> \<in> set subs)
     \<and> (k \<noteq> [] \<and> d \<noteq> JNull \<and> d \<noteq> JUndefined \<and> matchQuery_Q k q \<longrightarrow>
          Invoked f \<lparr> key = k, data = d, timestamp = now \<rparr>
            \<in> set (log (settle_Q beh (snd (publish_Q k d now (handle_unsubscribe_Q h s1))))))
     \<and> absent_Q q (UserFn f) (triggerDestroy_Q r s1)"
proof -
  let ?sub = "\<lparr> callback = UserFn f, onError = onErr \<rparr>"
  from assms(1) have h: "h = Handle_Q False q (UserFn f)"
    by (auto simp: internalSubscribe_Q_def Let_def)
  then have inert: "handle_unsubscribe_Q h s1 = s1" by simp
  from assms(1) obtain subs where
    g: "jsmap_get (subscribers s1) q = Some subs" and m: "?sub \<in> set subs"
    by (auto simp: internalSubscribe_Q_def Let_def)
  from assms(1) have hook: "(r, q, UserFn f) \<in> set (destroyHooks s1)"
    by (auto simp: internalSubscribe_Q_def Let_def)
  have deliver: "Invoked f \<lparr> key = k, data = d, timestamp = now \<rparr>
            \<in> set (log (settle_Q beh (snd (publish_Q k d now s1))))"
    if v: "k \<noteq> []" "d \<noteq> JNull" "d \<noteq> JUndefined" "matchQuery_Q k q"
  proof -
    let ?ev = "\<lparr> key = k, data = d, timestamp = now \<rparr>"
    let ?s2 = "s1\<lparr> eventQueue := eventQueue s1 @ [?ev] \<rparr>"
    from v have p: "snd (publish_Q k d now s1) = ?s2" by (simp add: publish_Q_def)
    have "Invoked f ?ev \<in> set (log (settle_Q beh ?s2))"
      using settle_Q_delivers [of ?ev ?s2 q subs ?sub f beh] g m v(4)
      by (simp add: jsmap_get_mem)
    with p show ?thesis by simp
  qed
  from inert g m deliver triggerDestroy_Q_removes [OF hook] show ?thesis by auto
qed


theorem destroyRef_handle_does_not_unsubscribe_witness:
  "log new_hub_Q = []
   \<and> handle_unsubscribe_Q (fst (internalSubscribe_Q ''user:*'' (UserFn 4) (Some 7) None new_hub_Q))
        (snd (internalSubscribe_Q ''user:*'' (UserFn 4) (Some 7) None new_hub_Q))
      = snd (internalSubscribe_Q ''user:*'' (UserFn 4) (Some 7) None new_hub_Q)
   \<and> Invoked 4 \<lparr> key = ''user:login'', data = JNum 1, timestamp = 5 \<rparr>
        \<in> set (log (settle_Q (\<lambda>f ev. Returns) (snd (publish_Q ''user:login'' (JNum 1) 5
              (handle_unsubscribe_Q (fst (internalSubscribe_Q ''user:*'' (UserFn 4) (Some 7) None new_hub_Q))
                 (snd (internalSubscribe_Q ''user:*'' (UserFn 4) (Some 7) None new_hub_Q)))))))
   \<and> absent_Q ''user:*'' (UserFn 4)
        (triggerDestroy_Q 7 (snd (internalSubscribe_Q ''user:*'' (UserFn 4) (Some 7) None new_hub_Q)))"
proof -
  let ?r = "internalSubscribe_Q ''user:*'' (UserFn 4) (Some 7) None new_hub_Q"
  have a: "?r = (fst ?r, snd ?r)" by simp
  have l: "log new_hub_Q = []" by (simp add: new_hub_Q_def)
  have m: "''user:login'' \<noteq> [] \<and> JNum 1 \<noteq> JNull \<and> JNum 1 \<noteq> JUndefined
             \<and> matchQuery_Q ''user:login'' ''user:*''"
    by (simp add: matchQuery_Q_def str_includes_def)
  from destroyRef_handle_does_not_unsubscribe
         [OF a l, of "''user:login''" "JNum 1" 5 "\<lambda>f ev. Returns"] m l
  show ?thesis by blast
qed






text \<open>
  C7, as stated: the multi-key read rejects a list that contains an empty entry and
  expands every wildcard entry through the key matcher. \<open>toSignalMultiple\<close> of the
  synchronous hub skips an empty entry (\<open>if (!query) continue\<close>) and returns a result;
  and for the entry \<open>*\<close> it tests the compiled pattern, which accepts no key with a
  delimiter, where the matcher accepts every key.
\<close>

theorem toSignalMultiple_S_counterexample:
  "toSignalMultiple_S (\<lambda>a b. 0) [''valid'', ''''] None [] = Inr []
   \<and> toSignalMultiple_S (\<lambda>a b. 0) [''*''] None
        [(''a:b'', \<lparr> key = ''a:b'', data = JNum 1, timestamp = 1 \<rparr>)] = Inr []
   \<and> matchQuery_S ''a:b'' ''*''"
  by (simp add: toSignalMultiple_S_def collect_query_def sort_events_def str_includes_def
        buildWildcardRegex_def matchQuery_S_def)

text \<open>
  C7, amended: for a registry as \<open>publish\<close> builds it and a comparator
  \<open>localeCompare\<close> that is a total preorder, \<open>toSignalMultiple\<close> of the synchronous hub
  rejects the empty list; for a non-empty list without the entry \<open>*\<close> it skips the
  empty entries and returns exactly the stored events whose key some non-empty entry
  matches by \<open>matchQuery\<close> (for an entry without a wildcard that is the event stored
  under that very key), each event once, and a key without an event contributes nothing;
  with \<open>sortBy: 'timestamp'\<close> the result is in descending order of timestamp and with
  \<open>sortBy: 'key'\<close> in ascending order of \<open>localeCompare\<close> on the keys.
\<close>

theorem toSignalMultiple_S_result:
  assumes "registry_ok reg" and "keys \<noteq> []" and "''*'' \<notin> set keys"
    and "\<forall>a b. localeCompare a b \<le> 0 \<or> localeCompare b a \<le> 0"
    and "\<forall>a b c. localeCompare a b \<le> 0 \<and> localeCompare b c \<le> 0 \<longrightarrow> localeCompare a c \<le> 0"
  shows "toSignalMultiple_S localeCompare [] sortBy reg = Inl KeysEmpty
     \<and> (\<exists>evs. toSignalMultiple_S localeCompare keys sortBy reg = Inr evs
          \<and> set evs = {e. \<exists>k. (k, e) \<in> set reg \<and> (\<exists>q \<in> set keys. q \<noteq> [] \<and> matchQuery_S k q)}
          \<and> distinct (map key evs)
          \<and> (sortBy = Some ByTimestamp \<longrightarrow> sorted_wrt (\<lambda>a b. timestamp b \<le> timestamp a) evs)
          \<and> (sortBy = Some ByKey \<longrightarrow> sorted_wrt (\<lambda>a b. localeCompare (key a) (key b) \<le> 0) evs))"
proof -
  let ?m = "collect_keys keys reg []"
  let ?evs = "sort_events localeCompare sortBy (map snd ?m)"
  have c0: "collected reg []" by (simp add: collected_def)
  from collect_keys_ok [OF assms(1) c0, of keys]
  have c: "collected reg ?m" and s: "set ?m = selected reg keys" by simp_all
  from assms(1) have ke: "\<And>k e. (k, e) \<in> set reg \<Longrightarrow> key e = k"
    by (auto simp: registry_ok_def list_all_iff)
  have sm: "selects q k = matchQuery_S k q" if "q \<in> set keys" for q k
  proof -
    from that assms(3) have "q \<noteq> ''*''" by auto
    then show ?thesis by (rule selects_matchQuery_S)
  qed
  have set_sort: "set ?evs = snd ` set ?m"
    by (simp add: sort_events_def split: option.splits sortBy.splits)
  have i1: "snd ` selected reg keys = {e. \<exists>k. (k, e) \<in> set reg \<and> (\<exists>q \<in> set keys. q \<noteq> [] \<and> selects q k)}"
    unfolding selected_def by force
  have i2: "{e. \<exists>k. (k, e) \<in> set reg \<and> (\<exists>q \<in> set keys. q \<noteq> [] \<and> selects q k)}
              = {e. \<exists>k. (k, e) \<in> set reg \<and> (\<exists>q \<in> set keys. q \<noteq> [] \<and> matchQuery_S k q)}"
    using sm by auto
  from set_sort s i1 i2
  have r1: "set ?evs = {e. \<exists>k. (k, e) \<in> set reg \<and> (\<exists>q \<in> set keys. q \<noteq> [] \<and> matchQuery_S k q)}"
    by simp
  from c ke have "map key (map snd ?m) = map fst ?m"
    by (auto simp: collected_def)
  moreover from c have "distinct (map fst ?m)" by (simp only: collected_def)
  ultimately have "distinct (map key (map snd ?m))" by (simp only:)
  then have r2: "distinct (map key ?evs)"
    by (simp add: sort_events_def distinct_map_js_sort split: option.splits sortBy.splits)
  have r3: "sortBy = Some ByTimestamp \<longrightarrow> sorted_wrt (\<lambda>a b. timestamp b \<le> timestamp a) ?evs"
  proof
    assume t: "sortBy = Some ByTimestamp"
    have "sorted_wrt (\<lambda>a b. by_timestamp a b \<le> 0) (js_sort by_timestamp (map snd ?m))"
      by (rule sorted_js_sort) (auto simp: by_timestamp_def)
    with t show "sorted_wrt (\<lambda>a b. timestamp b \<le> timestamp a) ?evs"
      by (simp add: sort_events_def by_timestamp_def)
  qed
  have r4: "sortBy = Some ByKey \<longrightarrow> sorted_wrt (\<lambda>a b. localeCompare (key a) (key b) \<le> 0) ?evs"
  proof
    assume t: "sortBy = Some ByKey"
    have "sorted_wrt (\<lambda>a b. by_key localeCompare a b \<le> 0) (js_sort (by_key localeCompare) (map snd ?m))"
    proof (rule sorted_js_sort)
      show "\<And>a b. by_key localeCompare a b \<le> 0 \<or> by_key localeCompare b a \<le> 0"
        using assms(4) by (simp add: by_key_def)
      show "\<And>a b c. by_key localeCompare a b \<le> 0 \<Longrightarrow> by_key localeCompare b c \<le> 0 \<Longrightarrow> by_key localeCompare a c \<le> 0"
        using assms(5) unfolding by_key_def by blast
    qed
    with t show "sorted_wrt (\<lambda>a b. localeCompare (key a) (key b) \<le> 0) ?evs"
      by (simp add: sort_events_def by_key_def)
  qed
  have e: "toSignalMultiple_S localeCompare keys sortBy reg = Inr ?evs"
    using assms(2) by (simp add: toSignalMultiple_S_def)
  have e0: "toSignalMultiple_S localeCompare [] sortBy reg = Inl KeysEmpty"
    by (simp add: toSignalMultiple_S_def)
  show ?thesis
  proof (intro conjI exI [of _ ?evs])
    show "toSignalMultiple_S localeCompare [] sortBy reg = Inl KeysEmpty" by (rule e0)
    show "toSignalMultiple_S localeCompare keys sortBy reg = Inr ?evs" by (rule e)
    show "set ?evs = {e. \<exists>k. (k, e) \<in> set reg \<and> (\<exists>q \<in> set keys. q \<noteq> [] \<and> matchQuery_S k q)}"
      by (rule r1)
    show "distinct (map key ?evs)" by (rule r2)
    show "sortBy = Some ByTimestamp \<longrightarrow> sorted_wrt (\<lambda>a b. timestamp b \<le> timestamp a) ?evs"
      by (rule r3)
    show "sortBy = Some ByKey \<longrightarrow> sorted_wrt (\<lambda>a b. localeCompare (key a) (key b) \<le> 0) ?evs"
      by (rule r4)
  qed
qed

theorem toSignalMultiple_S_result_witness:
  "registry_ok [(''c'', \<lparr> key = ''c'', data = JNum 1, timestamp = 8 \<rparr>),
                (''a:b'', \<lparr> key = ''a:b'', data = JNum 2, timestamp = 9 \<rparr>)]
   \<and> (\<exists>evs. toSignalMultiple_S (\<lambda>a b. int (length a) - int (length b)) [''a:*'', '''', ''c''] (Some ByKey)
               [(''c'', \<lparr> key = ''c'', data = JNum 1, timestamp = 8 \<rparr>),
                (''a:b'', \<lparr> key = ''a:b'', data = JNum 2, timestamp = 9 \<rparr>)] = Inr evs
          \<and> distinct (map key evs)
          \<and> sorted_wrt (\<lambda>a b. int (length (key a)) - int (length (key b)) \<le> 0) evs)"
proof -
  let ?lc = "\<lambda>a b :: string. int (length a) - int (length b)"
  let ?reg = "[(''c'', \<lparr> key = ''c'', data = JNum 1, timestamp = 8 \<rparr>),
               (''a:b'', \<lparr> key = ''a:b'', data = JNum 2, timestamp = 9 \<rparr>)]"
  have h: "registry_ok ?reg" "[''a:*'', '''', ''c''] \<noteq> []" "''*'' \<notin> set [''a:*'', '''', ''c'']"
    "\<forall>a b. ?lc a b \<le> 0 \<or> ?lc b a \<le> 0"
    "\<forall>a b c. ?lc a b \<le> 0 \<and> ?lc b c \<le> 0 \<longrightarrow> ?lc a c \<le> 0"
    by (auto simp: registry_ok_def)
  from toSignalMultiple_S_result [OF h, of "Some ByKey"] h(1) show ?thesis by blast
qed

end
